theory Spec2Isabelle
  imports Complex_Main "HOL-Library.Word" "HOL-Library.Log_Nat"
begin

unbundle bit_operations_syntax

section \<open>JavaScript numbers\<close>

text \<open>
  Every TypeScript \<^verbatim>\<open>number\<close> is an IEEE 754 double. A finite double is modelled by the
  rational it denotes, and every arithmetic operation rounds its exact result to the nearest
  double, ties to the even significand (\<open>fl\<close>). The exponent range is not modelled: the
  programs below never leave the range of normal doubles (sample rates, sample counts and
  timecodes are far below \<open>2 ^ 1023\<close> and the smallest nonzero intermediate value is far above
  \<open>2 ^ - 1022\<close>).
\<close>

type_synonym double = rat

definition ilog2 :: "rat \<Rightarrow> int" where
  "ilog2 a = (let (p, q) = quotient_of a; e0 = bitlen p - bitlen q
              in if 2 powi e0 \<le> a then e0 else e0 - 1)"

definition round_half_even :: "rat \<Rightarrow> int" where
  "round_half_even m =
     (let n = \<lfloor>m\<rfloor>; r = m - of_int n
      in if r < 1 / 2 then n else if 1 / 2 < r then n + 1
         else if even n then n else n + 1)"

definition fl :: "rat \<Rightarrow> double" where
  "fl x = (if x = 0 then 0
           else let a = \<bar>x\<bar>; u = 2 powi (ilog2 a - 52)
                in sgn x * of_int (round_half_even (a / u)) * u)"

definition dadd :: "double \<Rightarrow> double \<Rightarrow> double" where
  "dadd x y = fl (x + y)"

definition dmul :: "double \<Rightarrow> double \<Rightarrow> double" where
  "dmul x y = fl (x * y)"

definition ddiv :: "double \<Rightarrow> double \<Rightarrow> double" where
  "ddiv x y = fl (x / y)"

text \<open>\<^verbatim>\<open>Math.round\<close>: the nearest integer, a tie going up.\<close>

definition Math_round :: "double \<Rightarrow> int" where
  "Math_round x = \<lfloor>x + 1 / 2\<rfloor>"

section \<open>read-timecode.ts: the frame parser\<close>

text \<open>
  The interface \<^verbatim>\<open>LTCFrame\<close> of read-timecode.ts. The channel bits are the numbers 0 and 1
  that the Manchester decoder pushes; on such values \<^verbatim>\<open><<\<close> and \<^verbatim>\<open>|\<close> never reach
  the 32-bit limit of JavaScript's integer operators.
\<close>

record LTCFrame =
  frame :: nat
  second :: nat
  minute :: nat
  hour :: nat
  dropFrame :: bool
  colorFrame :: bool
  binaryGroup1 :: nat
  binaryGroup2 :: nat
  binaryGroup3 :: nat
  binaryGroup4 :: nat
  binaryGroup5 :: nat
  binaryGroup6 :: nat
  binaryGroup7 :: nat
  binaryGroup8 :: nat

text \<open>\<^verbatim>\<open>Array.prototype.slice(a, b)\<close> for \<open>0 \<le> a\<close>.\<close>

definition slice :: "'a list \<Rightarrow> nat \<Rightarrow> nat \<Rightarrow> 'a list" where
  "slice xs a b = take (b - a) (drop a xs)"

definition expectedSync :: "nat list" where
  "expectedSync = [0, 0, 1, 1, 1, 1, 1, 1, 1, 1, 1, 1, 1, 1, 0, 1]"

text \<open>
  \<^verbatim>\<open>syncWord.filter((bit, i) => bit === expectedSync[i]).length\<close>. Beyond index 15 the
  pattern is \<^verbatim>\<open>undefined\<close>, which is never strictly equal to a number.
\<close>

definition countMatches :: "nat list \<Rightarrow> nat" where
  "countMatches syncWord =
     length (filter (\<lambda>(bit, i). i < length expectedSync \<and> bit = expectedSync ! i)
               (zip syncWord [0..<length syncWord]))"

definition parseLTCFrame :: "nat list \<Rightarrow> LTCFrame option" where
  "parseLTCFrame bits =
    (if length bits < 80 then None
     else
      let frame_units =
            push_bit 3 (bits ! 3) OR push_bit 2 (bits ! 2) OR push_bit 1 (bits ! 1) OR bits ! 0;
          frame_tens = push_bit 1 (bits ! 9) OR bits ! 8;
          second_units =
            push_bit 3 (bits ! 19) OR push_bit 2 (bits ! 18) OR push_bit 1 (bits ! 17) OR bits ! 16;
          second_tens = push_bit 2 (bits ! 26) OR push_bit 1 (bits ! 25) OR bits ! 24;
          minute_units =
            push_bit 3 (bits ! 35) OR push_bit 2 (bits ! 34) OR push_bit 1 (bits ! 33) OR bits ! 32;
          minute_tens = push_bit 2 (bits ! 42) OR push_bit 1 (bits ! 41) OR bits ! 40;
          hour_units =
            push_bit 3 (bits ! 51) OR push_bit 2 (bits ! 50) OR push_bit 1 (bits ! 49) OR bits ! 48;
          hour_tens = push_bit 1 (bits ! 57) OR bits ! 56;
          syncWord = slice bits 64 80;
          syncMatches = countMatches syncWord
      in if syncMatches < 14 then None
         else
          let binaryGroup1' =
                push_bit 3 (bits ! 7) OR push_bit 2 (bits ! 6) OR push_bit 1 (bits ! 5) OR bits ! 4;
              binaryGroup2' =
                push_bit 3 (bits ! 15) OR push_bit 2 (bits ! 14) OR push_bit 1 (bits ! 13) OR bits ! 12;
              binaryGroup3' =
                push_bit 3 (bits ! 23) OR push_bit 2 (bits ! 22) OR push_bit 1 (bits ! 21) OR bits ! 20;
              binaryGroup4' =
                push_bit 3 (bits ! 31) OR push_bit 2 (bits ! 30) OR push_bit 1 (bits ! 29) OR bits ! 28;
              binaryGroup5' =
                push_bit 3 (bits ! 39) OR push_bit 2 (bits ! 38) OR push_bit 1 (bits ! 37) OR bits ! 36;
              binaryGroup6' =
                push_bit 3 (bits ! 47) OR push_bit 2 (bits ! 46) OR push_bit 1 (bits ! 45) OR bits ! 44;
              binaryGroup7' =
                push_bit 3 (bits ! 55) OR push_bit 2 (bits ! 54) OR push_bit 1 (bits ! 53) OR bits ! 52;
              binaryGroup8' =
                push_bit 3 (bits ! 63) OR push_bit 2 (bits ! 62) OR push_bit 1 (bits ! 61) OR bits ! 60
          in Some \<lparr>frame = frame_tens * 10 + frame_units,
                   second = second_tens * 10 + second_units,
                   minute = minute_tens * 10 + minute_units,
                   hour = hour_tens * 10 + hour_units,
                   dropFrame = (bits ! 10 = 1),
                   colorFrame = (bits ! 11 = 1),
                   binaryGroup1 = binaryGroup1',
                   binaryGroup2 = binaryGroup2',
                   binaryGroup3 = binaryGroup3',
                   binaryGroup4 = binaryGroup4',
                   binaryGroup5 = binaryGroup5',
                   binaryGroup6 = binaryGroup6',
                   binaryGroup7 = binaryGroup7',
                   binaryGroup8 = binaryGroup8'\<rparr>)"

text \<open>
  The indices of \<^verbatim>\<open>bits\<close> that \<^verbatim>\<open>parseLTCFrame\<close> reads, in program order (with
  \<^verbatim>\<open>debug\<close> off, its default): nothing before the length test, the time fields and the
  sync word after it, the user bits and the two flags only when the sync test passes.
\<close>

definition parseLTCFrame_reads :: "nat list \<Rightarrow> nat list" where
  "parseLTCFrame_reads bits =
    (if length bits < 80 then []
     else [3, 2, 1, 0, 9, 8, 19, 18, 17, 16, 26, 25, 24, 35, 34, 33, 32, 42, 41, 40,
           51, 50, 49, 48, 57, 56]
          @ [64..<min 80 (length bits)]
          @ (if countMatches (slice bits 64 80) < 14 then []
             else [7, 6, 5, 4, 15, 14, 13, 12, 23, 22, 21, 20, 31, 30, 29, 28,
                   39, 38, 37, 36, 47, 46, 45, 44, 55, 54, 53, 52, 63, 62, 61, 60, 10, 11]))"

section \<open>read-timecode.ts: the sync search of detectManchesterBits\<close>

text \<open>
  Lines 182 to 214: the loop \<^verbatim>\<open>for (let i = 0; i <= bits.length - 80; i++)\<close>, with its
  inner test \<^verbatim>\<open>i + 80 <= bits.length\<close>, returning the first candidate with at least 15
  matching sync bits and the empty array when the loop ends.
\<close>

function scanSync :: "nat list \<Rightarrow> nat \<Rightarrow> nat list" where
  "scanSync bits i =
    (if int i \<le> int (length bits) - 80 then
       (if i + 80 \<le> length bits then
          (let frameCandidate = slice bits i (i + 80);
               candidateSync = slice frameCandidate 64 80;
               matches = countMatches candidateSync
           in if 15 \<le> matches then frameCandidate else scanSync bits (i + 1))
        else scanSync bits (i + 1))
     else [])"
  by pat_completeness auto
termination
  by (relation "measure (\<lambda>(bits, i). length bits - i)") auto

declare scanSync.simps [simp del]

section \<open>read-timecode.ts: the Manchester decoder\<close>

text \<open>
  The local variables of \<^verbatim>\<open>detectManchesterBits\<close> and of
  \<^verbatim>\<open>detectManchesterBitsFromPosition\<close>; the array \<^verbatim>\<open>bits\<close> is the field \<open>recovered\<close>.
\<close>

record decoder =
  currentState :: nat
  samplesPerBit :: double
  samplesSinceChange :: nat
  recovered :: "nat list"
  pendingBit :: bool

text \<open>
  The body of the sample loop. The two functions have the same body but for the two
  constants of the smoothing line: \<^verbatim>\<open>samplesPerBit * 0.99 + samplesSinceChange * 0.01\<close> in the
  free scan and \<^verbatim>\<open>samplesPerBit * 0.95 + samplesSinceChange * 0.05\<close> in the decode from a
  position. They are the parameters \<open>keep\<close> and \<open>alpha\<close>.
\<close>

definition onSample :: "double \<Rightarrow> double \<Rightarrow> decoder \<Rightarrow> bool \<Rightarrow> decoder" where
  "onSample keep alpha st d =
    (let newState = (if d then 1 else 0);
         st1 = st\<lparr>samplesSinceChange := samplesSinceChange st + 1\<rparr>
     in if newState \<noteq> currentState st1 then
          let halfBitPeriod = dmul (samplesPerBit st1) (1 / 2);
              fullBitPeriod = samplesPerBit st1;
              st2 =
                (if of_nat (samplesSinceChange st1) < dmul halfBitPeriod (3 / 2) then
                   (if pendingBit st1
                    then st1\<lparr>recovered := recovered st1 @ [1], pendingBit := False\<rparr>
                    else st1\<lparr>pendingBit := True\<rparr>)
                 else if of_nat (samplesSinceChange st1) < dmul fullBitPeriod (3 / 2) then
                   (let st' = (if pendingBit st1
                               then st1\<lparr>recovered := recovered st1 @ [1]\<rparr> else st1)
                    in st'\<lparr>recovered := recovered st' @ [0], pendingBit := False,
                           samplesPerBit :=
                             dadd (dmul (samplesPerBit st') keep)
                                  (dmul (of_nat (samplesSinceChange st')) alpha)\<rparr>)
                 else
                   (if pendingBit st1
                    then st1\<lparr>recovered := recovered st1 @ [1], pendingBit := False\<rparr>
                    else st1))
          in st2\<lparr>currentState := newState, samplesSinceChange := 0\<rparr>
        else st1)"

text \<open>
  \<^verbatim>\<open>for (let i = 1; i < digital.length && bits.length < budget; i++)\<close>, as a recursion over
  the samples from index 1 on.
\<close>

fun manchesterLoop :: "nat \<Rightarrow> double \<Rightarrow> double \<Rightarrow> decoder \<Rightarrow> bool list \<Rightarrow> decoder" where
  "manchesterLoop budget keep alpha st [] = st"
| "manchesterLoop budget keep alpha st (d # ds) =
     (if length (recovered st) < budget
      then manchesterLoop budget keep alpha (onSample keep alpha st d) ds
      else st)"

text \<open>The state before the loop; \<^verbatim>\<open>digital[0]\<close> of an empty array is \<^verbatim>\<open>undefined\<close>, which is falsy.\<close>

definition initialDecoder :: "bool list \<Rightarrow> nat \<Rightarrow> decoder" where
  "initialDecoder digital sampleRate =
     \<lparr>currentState = (case digital of [] \<Rightarrow> 0 | d # _ \<Rightarrow> if d then 1 else 0),
      samplesPerBit = ddiv (of_nat sampleRate) 2400,
      samplesSinceChange = 0,
      recovered = [],
      pendingBit = False\<rparr>"

definition c099 :: double where "c099 = fl (99 / 100)"
definition c001 :: double where "c001 = fl (1 / 100)"
definition c095 :: double where "c095 = fl (95 / 100)"
definition c005 :: double where "c005 = fl (5 / 100)"

text \<open>Lines 127 to 175 of \<^verbatim>\<open>detectManchesterBits\<close>: the array \<^verbatim>\<open>bits\<close> when the sync search starts.\<close>

definition detectManchesterBits_bits :: "bool list \<Rightarrow> nat \<Rightarrow> nat list" where
  "detectManchesterBits_bits digital sampleRate =
    (let st = manchesterLoop 1000 c099 c001 (initialDecoder digital sampleRate) (drop 1 digital)
     in if pendingBit st then recovered st @ [1] else recovered st)"

definition detectManchesterBits :: "bool list \<Rightarrow> nat \<Rightarrow> nat list" where
  "detectManchesterBits digital sampleRate =
     scanSync (detectManchesterBits_bits digital sampleRate) 0"

definition detectManchesterBitsFromPosition :: "bool list \<Rightarrow> nat \<Rightarrow> nat list" where
  "detectManchesterBitsFromPosition digital sampleRate =
    (let st = manchesterLoop 80 c095 c005 (initialDecoder digital sampleRate) (drop 1 digital);
         bits = (if pendingBit st \<and> length (recovered st) < 80
                 then recovered st @ [1] else recovered st)
     in slice bits 0 80)"

section \<open>read-timecode.ts: audioToDigital\<close>

text \<open>
  The buffer is a list of bytes. The \<^verbatim>\<open>read\<close> methods of a Node buffer throw a
  \<^verbatim>\<open>RangeError\<close> when the offset is not an integer or when the value would end past the
  buffer. A sample is the number read: a finite value, an infinity or NaN (only
  \<^verbatim>\<open>readFloatLE\<close> yields the last three).
\<close>

datatype js_error = RangeError

datatype sample = SNaN | SInf bool | SNum rat

definition gt_threshold :: "sample \<Rightarrow> bool" where
  "gt_threshold s = (case s of SNum r \<Rightarrow> 0 < r | SInf negative \<Rightarrow> \<not> negative | SNaN \<Rightarrow> False)"

definition validOffset :: "8 word list \<Rightarrow> rat \<Rightarrow> nat \<Rightarrow> bool" where
  "validOffset buffer off n \<longleftrightarrow>
     off = of_int \<lfloor>off\<rfloor> \<and> 0 \<le> off \<and> off + of_nat n \<le> of_nat (length buffer)"

definition readInt8 :: "8 word list \<Rightarrow> rat \<Rightarrow> js_error + sample" where
  "readInt8 buffer off =
     (if validOffset buffer off 1
      then Inr (SNum (of_int (sint (buffer ! nat \<lfloor>off\<rfloor>))))
      else Inl RangeError)"

definition readInt16LE :: "8 word list \<Rightarrow> rat \<Rightarrow> js_error + sample" where
  "readInt16LE buffer off =
     (if validOffset buffer off 2
      then let i = nat \<lfloor>off\<rfloor>;
               w = (ucast (buffer ! i) OR push_bit 8 (ucast (buffer ! (i + 1)))) :: 16 word
           in Inr (SNum (of_int (sint w)))
      else Inl RangeError)"

text \<open>The value of an IEEE 754 single: sign bit 31, exponent bits 30 to 23, fraction bits 22 to 0.\<close>

definition float32 :: "32 word \<Rightarrow> sample" where
  "float32 w =
    (let negative = bit w 31;
         e = unat (drop_bit 23 w AND 0xFF);
         m = unat (w AND 0x7FFFFF)
     in if e = 255 then (if m = 0 then SInf negative else SNaN)
        else let v = (if e = 0 then of_nat m * 2 powi (- 149)
                      else of_nat (m + 2 ^ 23) * 2 powi (int e - 150))
             in SNum (if negative then - v else v))"

definition readFloatLE :: "8 word list \<Rightarrow> rat \<Rightarrow> js_error + sample" where
  "readFloatLE buffer off =
     (if validOffset buffer off 4
      then let i = nat \<lfloor>off\<rfloor>;
               w = (ucast (buffer ! i) OR push_bit 8 (ucast (buffer ! (i + 1)))
                    OR push_bit 16 (ucast (buffer ! (i + 2)))
                    OR push_bit 24 (ucast (buffer ! (i + 3)))) :: 32 word
           in Inr (float32 w)
      else Inl RangeError)"

text \<open>
  \<^verbatim>\<open>Math.min(availableSamples, maxSamples)\<close> as the bound of the loop. With
  \<^verbatim>\<open>bitsPerSample\<close> 0 the division is by zero: the quotient is \<^verbatim>\<open>Infinity\<close> when
  bytes are left (the minimum is then \<^verbatim>\<open>maxSamples\<close>), and \<^verbatim>\<open>NaN\<close> or
  \<^verbatim>\<open>-Infinity\<close> otherwise, below which no index lies. The quotient of two integers below
  \<open>2 ^ 32\<close> is never so close to the next integer that its rounding to a double reaches it,
  so \<^verbatim>\<open>Math.floor\<close> of the double is the floor of the exact quotient.
\<close>

definition numSamples :: "nat \<Rightarrow> nat \<Rightarrow> nat \<Rightarrow> nat \<Rightarrow> int" where
  "numSamples bufferLength dataOffset bitsPerSample maxSamples =
    (if bitsPerSample = 0
     then (if dataOffset < bufferLength then int maxSamples else 0)
     else min \<lfloor>(of_nat bufferLength - of_nat dataOffset) / (of_nat bitsPerSample / 8 :: rat)\<rfloor>
              (int maxSamples))"

function audioLoop ::
  "8 word list \<Rightarrow> nat \<Rightarrow> nat \<Rightarrow> int \<Rightarrow> nat \<Rightarrow> bool list \<Rightarrow> js_error + bool list" where
  "audioLoop buffer dataOffset bitsPerSample n i digital =
    (if int i < n then
       (let bytesPerSample = of_nat bitsPerSample / 8;
            sampleOffset = of_nat dataOffset + of_nat i * bytesPerSample
        in case (if bitsPerSample = 32 then readFloatLE buffer sampleOffset
                 else if bitsPerSample = 16 then readInt16LE buffer sampleOffset
                 else readInt8 buffer sampleOffset) of
             Inl e \<Rightarrow> Inl e
           | Inr sample \<Rightarrow>
               audioLoop buffer dataOffset bitsPerSample n (i + 1)
                 (digital @ [gt_threshold sample]))
     else Inr digital)"
  by pat_completeness auto
termination
  by (relation "measure (\<lambda>(buffer, dataOffset, bitsPerSample, n, i, digital). nat (n - int i))")
     auto

declare audioLoop.simps [simp del]

definition audioToDigital ::
  "8 word list \<Rightarrow> nat \<Rightarrow> nat \<Rightarrow> nat \<Rightarrow> nat \<Rightarrow> js_error + bool list" where
  "audioToDigital buffer dataOffset sampleRate bitsPerSample maxSamples =
     audioLoop buffer dataOffset bitsPerSample
       (numSamples (length buffer) dataOffset bitsPerSample maxSamples) 0 []"

section \<open>Strings\<close>

text \<open>
  Strings are lists of characters; the lines of \<^verbatim>\<open>ltcdump\<close> and the decimal renderings of
  numbers are ASCII. White space is what \<^verbatim>\<open>trim\<close>, \<^verbatim>\<open>\s\<close> and \<^verbatim>\<open>parseInt\<close>
  skip, within ASCII: space, tab, line feed, vertical tab, form feed, carriage return.
\<close>

definition is_ws :: "char \<Rightarrow> bool" where
  "is_ws c \<longleftrightarrow> c \<in> {CHR '' '', CHR 0x09, CHR 0x0A, CHR 0x0B, CHR 0x0C, CHR 0x0D}"

definition trim :: "string \<Rightarrow> string" where
  "trim s = rev (dropWhile is_ws (rev (dropWhile is_ws s)))"

text \<open>\<^verbatim>\<open>s.split(sep)\<close> for a separator of one character.\<close>

fun split_on :: "char \<Rightarrow> string \<Rightarrow> string list" where
  "split_on sep [] = [[]]"
| "split_on sep (c # cs) =
     (if c = sep then [] # split_on sep cs
      else (case split_on sep cs of p # ps \<Rightarrow> (c # p) # ps | [] \<Rightarrow> [[c]]))"

text \<open>\<^verbatim>\<open>s.split(/\s+/)\<close>.\<close>

function split_ws :: "string \<Rightarrow> string list" where
  "split_ws [] = [[]]"
| "split_ws (c # cs) =
     (if is_ws c then [] # split_ws (dropWhile is_ws cs)
      else (case split_ws cs of p # ps \<Rightarrow> (c # p) # ps | [] \<Rightarrow> [[c]]))"
  by pat_completeness auto
termination
  by (relation "measure length") (auto simp: length_dropWhile_le le_imp_less_Suc)

text \<open>\<^verbatim>\<open>parts.join(sep)\<close>.\<close>

fun join :: "string \<Rightarrow> string list \<Rightarrow> string" where
  "join sep [] = []"
| "join sep [x] = x"
| "join sep (x # y # zs) = x @ sep @ join sep (y # zs)"

text \<open>
  \<^verbatim>\<open>parseInt(s)\<close> with no radix: white space is skipped, then a sign, then \<^verbatim>\<open>0x\<close> or
  \<^verbatim>\<open>0X\<close> selects radix 16; the longest prefix of digits of the radix is the value, and
  without a digit the result is \<^verbatim>\<open>NaN\<close>, here \<open>None\<close>. The strings parsed below have at
  most four characters, so the value is an exact double.
\<close>

definition digitOf :: "char \<Rightarrow> nat" where
  "digitOf c =
    (let n = (of_char c :: nat)
     in if 48 \<le> n \<and> n \<le> 57 then n - 48
        else if 97 \<le> n \<and> n \<le> 122 then n - 87
        else if 65 \<le> n \<and> n \<le> 90 then n - 55
        else 36)"

definition parseInt :: "string \<Rightarrow> int option" where
  "parseInt s =
    (let s1 = dropWhile is_ws s;
         negative = (take 1 s1 = ''-'');
         s2 = (if take 1 s1 = ''-'' \<or> take 1 s1 = ''+'' then drop 1 s1 else s1);
         hex = (take 2 s2 = ''0x'' \<or> take 2 s2 = ''0X'');
         radix = (if hex then 16 else 10);
         s3 = (if hex then drop 2 s2 else s2);
         ds = takeWhile (\<lambda>c. digitOf c < radix) s3;
         v = int (foldl (\<lambda>a c. a * radix + digitOf c) 0 ds)
     in if ds = [] then None else Some (if negative then - v else v))"

text \<open>Comparisons of a number that may be \<^verbatim>\<open>NaN\<close>: every comparison with \<^verbatim>\<open>NaN\<close> is false.\<close>

definition js_less :: "int option \<Rightarrow> int \<Rightarrow> bool" where
  "js_less a b = (case a of None \<Rightarrow> False | Some x \<Rightarrow> x < b)"

definition js_greater :: "int option \<Rightarrow> int \<Rightarrow> bool" where
  "js_greater a b = (case a of None \<Rightarrow> False | Some x \<Rightarrow> b < x)"

definition js_ge :: "int option \<Rightarrow> int \<Rightarrow> bool" where
  "js_ge a b = (case a of None \<Rightarrow> False | Some x \<Rightarrow> b \<le> x)"

definition js_le :: "int option \<Rightarrow> int \<Rightarrow> bool" where
  "js_le a b = (case a of None \<Rightarrow> False | Some x \<Rightarrow> x \<le> b)"

text \<open>
  \<^verbatim>\<open>n.toString()\<close> of a natural number, and of a number that may be negative or
  \<^verbatim>\<open>NaN\<close>; \<open>digit_char\<close> is only applied to numbers below 10.
\<close>

definition digit_char :: "nat \<Rightarrow> char" where
  "digit_char n = ''0123456789'' ! n"

function dec :: "nat \<Rightarrow> string" where
  "dec n = (if n < 10 then [digit_char n] else dec (n div 10) @ [digit_char (n mod 10)])"
  by pat_completeness auto
termination
  by (relation "measure id") auto

declare dec.simps [simp del]

definition toString :: "int option \<Rightarrow> string" where
  "toString x =
    (case x of None \<Rightarrow> ''NaN''
     | Some v \<Rightarrow> if v < 0 then ''-'' @ dec (nat (- v)) else dec (nat v))"

section \<open>sync-ltc-timecode.ts\<close>

text \<open>
  The interface \<^verbatim>\<open>LTCFrame\<close> of sync-ltc-timecode.ts, a frame read from a line of
  \<^verbatim>\<open>ltcdump\<close>. Its time fields carry the prefix \<open>tc\<close> here, the names without it being
  the fields of the frame of read-timecode.ts. The year, the month and the day are results of
  \<^verbatim>\<open>parseInt\<close> on pieces of the user bits and may be \<^verbatim>\<open>NaN\<close>; the four time fields are
  \<^verbatim>\<open>parseInt\<close> of two decimal digits each, which is never \<^verbatim>\<open>NaN\<close>.
\<close>

record SyncFrame =
  userBits :: string
  timecode :: string
  position :: string
  year :: "int option"
  month :: "int option"
  day :: "int option"
  tcHour :: int
  tcMinute :: int
  tcSecond :: int
  tcFrame :: int
  tcDropFrame :: bool

text \<open>What \<^verbatim>\<open>new Date()\<close> answers to \<^verbatim>\<open>getFullYear\<close>, \<^verbatim>\<open>getMonth\<close> and \<^verbatim>\<open>getDate\<close>.\<close>

record wallclock =
  getFullYear :: int
  getMonth :: int
  getDate :: int

text \<open>The calls of \<^verbatim>\<open>console.warn\<close>, with the values they print.\<close>

datatype warning =
  InvalidDate string
| InvalidHour int int
| InvalidMinute int int
| InvalidSecond int int

definition isDigit :: "char \<Rightarrow> bool" where
  "isDigit c \<longleftrightarrow> 48 \<le> (of_char c :: nat) \<and> (of_char c :: nat) \<le> 57"

text \<open>
  \<^verbatim>\<open>timecode.match(/(\d{2}):(\d{2}):(\d{2})[.:](\d{2})/)\<close>: the four groups of the leftmost
  match, if there is one.
\<close>

fun matchTimecode :: "string \<Rightarrow> (string \<times> string \<times> string \<times> string) option" where
  "matchTimecode [] = None"
| "matchTimecode (c # cs) =
    (let s = c # cs
     in if 11 \<le> length s
           \<and> isDigit (s ! 0) \<and> isDigit (s ! 1) \<and> s ! 2 = CHR '':''
           \<and> isDigit (s ! 3) \<and> isDigit (s ! 4) \<and> s ! 5 = CHR '':''
           \<and> isDigit (s ! 6) \<and> isDigit (s ! 7) \<and> (s ! 8 = CHR ''.'' \<or> s ! 8 = CHR '':'')
           \<and> isDigit (s ! 9) \<and> isDigit (s ! 10)
        then Some ([s ! 0, s ! 1], [s ! 3, s ! 4], [s ! 6, s ! 7], [s ! 9, s ! 10])
        else matchTimecode cs)"

text \<open>The number that \<^verbatim>\<open>parseInt\<close> returns on a group of the match.\<close>

definition groupNumber :: "string \<Rightarrow> int" where
  "groupNumber g = (case parseInt g of Some v \<Rightarrow> v | None \<Rightarrow> 0)"

text \<open>
  \<^verbatim>\<open>parseLTCFrame(line)\<close> of sync-ltc-timecode.ts, with the wall clock as a parameter; the
  result is the frame or \<^verbatim>\<open>null\<close>, and the warnings in the order they are printed. No call
  inside its \<^verbatim>\<open>try\<close> block throws.
\<close>

definition parseLTCFrame_line :: "wallclock \<Rightarrow> string \<Rightarrow> SyncFrame option \<times> warning list" where
  "parseLTCFrame_line now line =
    (let parts = split_on CHR ''|'' (trim line)
     in if length parts \<noteq> 2 then (None, [])
        else
         let leftPart = trim (parts ! 0);
             rightPart = trim (parts ! 1);
             leftParts = split_ws leftPart;
             userBits' = leftParts ! 0;
             timecode' = join '' '' (drop 1 leftParts)
         in if length userBits' \<noteq> 8 then (None, [])
            else
             let year0 = parseInt (''20'' @ slice userBits' 0 2);
                 month0 = parseInt (slice userBits' 2 4);
                 day0 = parseInt (slice userBits' 4 6);
                 invalidDate = (js_less month0 1 \<or> js_greater month0 12
                                \<or> js_less day0 1 \<or> js_greater day0 31);
                 w1 = (if invalidDate then [InvalidDate userBits'] else []);
                 year' = (if invalidDate then Some (getFullYear now) else year0);
                 month' = (if invalidDate then Some (getMonth now + 1) else month0);
                 day' = (if invalidDate then Some (getDate now) else day0)
             in case matchTimecode timecode' of
                  None \<Rightarrow> (None, w1)
                | Some (g1, g2, g3, g4) \<Rightarrow>
                    let hour0 = groupNumber g1;
                        minute' = groupNumber g2;
                        second' = groupNumber g3;
                        frame' = groupNumber g4;
                        dropFrame' = (CHR ''.'' \<in> set timecode');
                        w2 = (if 24 \<le> hour0 then [InvalidHour hour0 (hour0 mod 24)] else []);
                        hour' = (if 24 \<le> hour0 then hour0 mod 24 else hour0);
                        w3 = (if 60 \<le> minute' then [InvalidMinute minute' (minute' mod 60)] else []);
                        w4 = (if 60 \<le> second' then [InvalidSecond second' (second' mod 60)] else []);
                        position' = (let p = split_ws rightPart ! 0 in if p = [] then ''0'' else p)
                    in (Some \<lparr>userBits = userBits', timecode = timecode', position = position',
                               year = year', month = month', day = day',
                               tcHour = hour', tcMinute = minute', tcSecond = second',
                               tcFrame = frame', tcDropFrame = dropFrame'\<rparr>,
                        w1 @ w2 @ w3 @ w4))"

text \<open>
  \<^verbatim>\<open>calculateTimeReference\<close>: every operation is an operation on doubles; \<open>29.97\<close> is the
  double nearest to 2997/100.
\<close>

definition calculateTimeReference :: "SyncFrame \<Rightarrow> int" where
  "calculateTimeReference fr =
    (let frameRate = (if tcDropFrame fr then fl (2997 / 100) else 30);
         totalFrames =
           dadd (dmul (dadd (dadd (dmul (of_int (tcHour fr)) 3600) (dmul (of_int (tcMinute fr)) 60))
                            (of_int (tcSecond fr)))
                      frameRate)
                (of_int (tcFrame fr));
         samples = Math_round (ddiv (dmul totalFrames 48000) frameRate)
     in samples)"

section \<open>read-timecode.ts: the date of displayLTCFrame\<close>

definition userBitsString :: "LTCFrame \<Rightarrow> string" where
  "userBitsString fr =
     dec (binaryGroup8 fr) @ dec (binaryGroup7 fr) @ dec (binaryGroup6 fr) @ dec (binaryGroup5 fr)
     @ dec (binaryGroup4 fr) @ dec (binaryGroup3 fr) @ dec (binaryGroup2 fr) @ dec (binaryGroup1 fr)"

definition monthNames :: "string list" where
  "monthNames = [''January'', ''February'', ''March'', ''April'', ''May'', ''June'', ''July'',
                 ''August'', ''September'', ''October'', ''November'', ''December'']"

text \<open>
  Lines 529 to 563 of \<^verbatim>\<open>displayLTCFrame\<close>: the line \<^verbatim>\<open>Date: ...\<close> that is printed, or
  \<open>None\<close> when none is. The values that the line shows are kept apart in \<open>displayedDate\<close>:
  the month, the day and the full year.
\<close>

definition displayedDate :: "LTCFrame \<Rightarrow> (int \<times> int \<times> int option) option" where
  "displayedDate fr =
    (let s = userBitsString fr
     in if length s = 8 then
          (let year' = parseInt (slice s 0 2);
               month' = parseInt (slice s 2 4);
               day' = parseInt (slice s 4 6)
           in if js_ge month' 1 \<and> js_le month' 12 \<and> js_ge day' 1 \<and> js_le day' 31 then
                (let fullYear = (case year' of None \<Rightarrow> None
                                 | Some y \<Rightarrow> Some (if y < 50 then 2000 + y else 1900 + y))
                 in case (month', day') of
                      (Some m, Some d) \<Rightarrow> Some (m, d, fullYear)
                    | _ \<Rightarrow> None)
              else None)
        else None)"

definition displayLTCFrame_date :: "LTCFrame \<Rightarrow> string option" where
  "displayLTCFrame_date fr =
    (case displayedDate fr of
       None \<Rightarrow> None
     | Some (m, d, fullYear) \<Rightarrow>
         let extra = slice (userBitsString fr) 6 8
         in Some (''Date: '' @ monthNames ! nat (m - 1) @ '' '' @ toString (Some d) @ '', ''
                  @ toString fullYear
                  @ (if extra \<noteq> ''00'' then '' (extra: '' @ extra @ '')'' else '''')))"

section \<open>Reference definitions for the frame layout\<close>

text \<open>
  The bit of weight \<open>2 ^ k\<close> of a number, and the 80-bit frame that the layout of the format
  builds from the fields of a frame: units and tens of each time field in binary-coded decimal,
  least significant bit first, the user-bit groups between them, the two flags at bits 10 and
  11, the unassigned bits 27, 43, 58 and 59 at zero, the sync word at bits 64 to 79. The program
  has no encoder; this one states what a frame constructed from known field values is.
\<close>

definition bitOf :: "nat \<Rightarrow> nat \<Rightarrow> nat" where
  "bitOf v k = (v div 2 ^ k) mod 2"

definition encodeLTCFrame :: "LTCFrame \<Rightarrow> nat list" where
  "encodeLTCFrame f =
    (let fu = frame f mod 10; ft = frame f div 10;
         su = second f mod 10; st = second f div 10;
         mu = minute f mod 10; mt = minute f div 10;
         hu = hour f mod 10; ht = hour f div 10;
         g1 = binaryGroup1 f; g2 = binaryGroup2 f; g3 = binaryGroup3 f; g4 = binaryGroup4 f;
         g5 = binaryGroup5 f; g6 = binaryGroup6 f; g7 = binaryGroup7 f; g8 = binaryGroup8 f
     in [bitOf fu 0, bitOf fu 1, bitOf fu 2, bitOf fu 3,
         bitOf g1 0, bitOf g1 1, bitOf g1 2, bitOf g1 3,
         bitOf ft 0, bitOf ft 1,
         (if dropFrame f then 1 else 0), (if colorFrame f then 1 else 0),
         bitOf g2 0, bitOf g2 1, bitOf g2 2, bitOf g2 3,
         bitOf su 0, bitOf su 1, bitOf su 2, bitOf su 3,
         bitOf g3 0, bitOf g3 1, bitOf g3 2, bitOf g3 3,
         bitOf st 0, bitOf st 1, bitOf st 2, 0,
         bitOf g4 0, bitOf g4 1, bitOf g4 2, bitOf g4 3,
         bitOf mu 0, bitOf mu 1, bitOf mu 2, bitOf mu 3,
         bitOf g5 0, bitOf g5 1, bitOf g5 2, bitOf g5 3,
         bitOf mt 0, bitOf mt 1, bitOf mt 2, 0,
         bitOf g6 0, bitOf g6 1, bitOf g6 2, bitOf g6 3,
         bitOf hu 0, bitOf hu 1, bitOf hu 2, bitOf hu 3,
         bitOf g7 0, bitOf g7 1, bitOf g7 2, bitOf g7 3,
         bitOf ht 0, bitOf ht 1, 0, 0,
         bitOf g8 0, bitOf g8 1, bitOf g8 2, bitOf g8 3]
        @ expectedSync)"

definition bcd_fields :: "LTCFrame \<Rightarrow> bool" where
  "bcd_fields f \<longleftrightarrow>
     frame f < 40 \<and> second f < 80 \<and> minute f < 80 \<and> hour f < 40 \<and>
     binaryGroup1 f < 16 \<and> binaryGroup2 f < 16 \<and> binaryGroup3 f < 16 \<and> binaryGroup4 f < 16 \<and>
     binaryGroup5 f < 16 \<and> binaryGroup6 f < 16 \<and> binaryGroup7 f < 16 \<and> binaryGroup8 f < 16"

text \<open>The frame 01:02:03:04, non-drop, with the user bits of the date 2025-09-15.\<close>

definition exampleFrame :: LTCFrame where
  "exampleFrame =
     \<lparr>frame = 4, second = 3, minute = 2, hour = 1, dropFrame = False, colorFrame = False,
      binaryGroup1 = 0, binaryGroup2 = 0, binaryGroup3 = 5, binaryGroup4 = 1,
      binaryGroup5 = 9, binaryGroup6 = 0, binaryGroup7 = 5, binaryGroup8 = 2\<rparr>"

text \<open>
  The number of bits of the sync word of a window (its bits 64 to 79) that differ from the
  pattern, and the offsets of a bit sequence at which the free scan accepts the window.
\<close>

definition syncErrors :: "nat list \<Rightarrow> nat" where
  "syncErrors w =
     length (filter (\<lambda>(bit, i). bit \<noteq> expectedSync ! i) (zip (slice w 64 80) [0..<16]))"

definition qualifies :: "nat list \<Rightarrow> nat \<Rightarrow> bool" where
  "qualifies bits i \<longleftrightarrow>
     i + 80 \<le> length bits \<and> 15 \<le> countMatches (slice (slice bits i (i + 80)) 64 80)"

section \<open>Reference definitions for the bit recovery\<close>

text \<open>
  The intervals of a polarity trace. \<open>runLengths\<close> is the lengths of the maximal runs of equal
  samples. Every run but the last is ended by a polarity change, and its length is the number
  of samples from the previous change (from the first sample of the trace, for the first run)
  to the change: the interval that elapsed at the change.
\<close>

function runLengths :: "bool list \<Rightarrow> nat list" where
  "runLengths [] = []"
| "runLengths (d # ds) =
     Suc (length (takeWhile (\<lambda>e. e = d) ds)) # runLengths (dropWhile (\<lambda>e. e = d) ds)"
  by pat_completeness auto

termination runLengths
  by (relation "measure length") (simp_all add: length_dropWhile_le less_Suc_eq_le)

definition intervals :: "bool list \<Rightarrow> nat list" where
  "intervals digital = butlast (runLengths digital)"

text \<open>
  What the bit recovery holds between two polarity changes: the bit period in samples, the bits
  emitted, and whether a half-bit is pending. \<open>classifyInterval\<close> is the classification of an
  elapsed interval with smoothing factor \<open>alpha\<close>: below 1.5 times the half-bit period a pending
  half-bit is emitted as 1 and otherwise the pending flag is set; below 1.5 times the bit period
  a pending half-bit is emitted as 1, then a 0 is emitted and the bit period becomes
  \<open>old * (1 - alpha) + elapsed * alpha\<close>; a longer interval closes a pending half-bit as 1,
  emits no 0 and leaves the bit period. \<open>decodeIntervals\<close> classifies the intervals in order
  while fewer bits than the budget are emitted.
\<close>

type_synonym recovery = "double \<times> nat list \<times> bool"

definition classifyInterval :: "double \<Rightarrow> recovery \<Rightarrow> nat \<Rightarrow> recovery" where
  "classifyInterval alpha r elapsed =
    (case r of (period, bits, pending) \<Rightarrow>
       if of_nat elapsed < dmul (dmul period (1 / 2)) (3 / 2) then
         (if pending then (period, bits @ [1], False) else (period, bits, True))
       else if of_nat elapsed < dmul period (3 / 2) then
         (dadd (dmul period (fl (1 - alpha))) (dmul (of_nat elapsed) alpha),
          (if pending then bits @ [1] else bits) @ [0], False)
       else (period, (if pending then bits @ [1] else bits), False))"

fun decodeIntervals :: "nat \<Rightarrow> double \<Rightarrow> recovery \<Rightarrow> nat list \<Rightarrow> recovery" where
  "decodeIntervals budget alpha r [] = r"
| "decodeIntervals budget alpha r (e # es) =
     (if length (fst (snd r)) < budget
      then decodeIntervals budget alpha (classifyInterval alpha r e) es
      else r)"

text \<open>The bit period, the recovered bits and the pending flag of a decoder state.\<close>

definition recoveryOf :: "decoder \<Rightarrow> recovery" where
  "recoveryOf st = (samplesPerBit st, recovered st, pendingBit st)"

section \<open>Invariants, example inputs and reference values\<close>

text \<open>
  What the budget of the sample loop guarantees of the decoder state: at most one bit more
  than the budget is recovered, and a half-bit is pending only below the budget.
\<close>

definition within_budget :: "nat \<Rightarrow> decoder \<Rightarrow> bool" where
  "within_budget budget st \<longleftrightarrow>
     length (recovered st) \<le> budget + 1 \<and> (pendingBit st \<longrightarrow> length (recovered st) < budget)"

text \<open>
  A decoder state at 48000 Hz after full-bit intervals of 20 samples: the bit period is 20.
  \<open>fullBits n c\<close> is the polarity trace of \<open>n\<close> zero bits from polarity \<open>c\<close>, each of 19
  samples at the polarity and one at the opposite polarity.
\<close>

definition stAt :: "bool \<Rightarrow> nat \<Rightarrow> nat list \<Rightarrow> bool \<Rightarrow> decoder" where
  "stAt c n bs p = \<lparr>currentState = (if c then 1 else 0), samplesPerBit = 20,
      samplesSinceChange = n, recovered = bs, pendingBit = p\<rparr>"

fun fullBits :: "nat \<Rightarrow> bool \<Rightarrow> bool list" where
  "fullBits 0 c = []"
| "fullBits (Suc n) c = replicate 19 c @ [\<not> c] @ fullBits n (\<not> c)"

text \<open>
  A trace of 999 zero bits followed by a one bit whose second half lasts a full bit period:
  a half-bit interval of 10 samples, then an interval of 20 samples. And a trace that ends in
  a pending half-bit: one zero bit and a half-bit interval.
\<close>

definition overshootTrace :: "bool list" where
  "overshootTrace =
     False # fullBits 999 False @ (replicate 9 True @ [False]) @ (replicate 19 False @ [True])"

definition pendingTrace :: "bool list" where
  "pendingTrace = False # replicate 19 False @ [True] @ replicate 9 True @ [False]"

text \<open>
  A trace with a spurious interval: a half-bit interval of 10 samples, then 30 samples without
  a polarity change.
\<close>

definition spuriousTrace :: "bool list" where
  "spuriousTrace = False # replicate 9 False @ [True] @ replicate 29 True @ [False]"

text \<open>
  The number that \<^verbatim>\<open>audioToDigital\<close> decodes for sample \<open>i\<close> when the bit depth is a
  multiple of 8: a single-precision float at 32 bits, a signed 16-bit integer at 16 bits, and
  at every other depth the first byte of the sample as a signed 8-bit integer.
\<close>

definition sampleAt :: "8 word list \<Rightarrow> nat \<Rightarrow> nat \<Rightarrow> nat \<Rightarrow> sample" where
  "sampleAt buffer dataOffset bitsPerSample i =
    (let p = dataOffset + i * (bitsPerSample div 8)
     in if bitsPerSample = 32 then
          float32 (ucast (buffer ! p) OR push_bit 8 (ucast (buffer ! (p + 1)))
                   OR push_bit 16 (ucast (buffer ! (p + 2)))
                   OR push_bit 24 (ucast (buffer ! (p + 3))))
        else if bitsPerSample = 16 then
          SNum (of_int (sint ((ucast (buffer ! p) OR push_bit 8 (ucast (buffer ! (p + 1)))) :: 16 word)))
        else SNum (of_int (sint (buffer ! p))))"

text \<open>
  Eight bytes: the 16-bit samples 1, -1, -32768 and 0.
\<close>

definition exampleBuffer :: "8 word list" where
  "exampleBuffer = [1, 0, 0xFF, 0xFF, 0, 0x80, 0, 0]"

text \<open>
  A wall clock, and lines of \<^verbatim>\<open>ltcdump\<close>: one whose user bits are the date 2025-09-15, one
  whose user bits have the hexadecimal digit c in the month, one whose year digits are 75. The
  frames are the example frame with user-bit group 1 at 10, and with the year digits 75.
\<close>

definition exampleNow :: wallclock where
  "exampleNow = \<lparr>getFullYear = 2026, getMonth = 10, getDate = 2\<rparr>"

definition exampleLine :: string where
  "exampleLine = ''25091500   06:04:00.16 |  2660708  2662667 R''"

definition nanMonthLine :: string where
  "nanMonthLine = ''25c11500   01:02:03:04 |  2660708  2662667 R''"

definition year75Line :: string where
  "year75Line = ''75091500   01:02:03:04 |  2660708  2662667 R''"

definition longGroupFrame :: LTCFrame where
  "longGroupFrame = exampleFrame\<lparr>binaryGroup1 := 10\<rparr>"

definition year75Frame :: LTCFrame where
  "year75Frame = exampleFrame\<lparr>binaryGroup8 := 7\<rparr>"

text \<open>
  All eight user-bit groups are decimal digits; and the test of \<^verbatim>\<open>parseLTCFrame\<close> of
  sync-ltc-timecode.ts on the month and the day of the user bits.
\<close>

definition digit_groups :: "LTCFrame \<Rightarrow> bool" where
  "digit_groups fr \<longleftrightarrow>
     binaryGroup1 fr < 10 \<and> binaryGroup2 fr < 10 \<and> binaryGroup3 fr < 10 \<and> binaryGroup4 fr < 10 \<and>
     binaryGroup5 fr < 10 \<and> binaryGroup6 fr < 10 \<and> binaryGroup7 fr < 10 \<and> binaryGroup8 fr < 10"

definition invalidDate :: "string \<Rightarrow> bool" where
  "invalidDate ub \<longleftrightarrow>
     js_less (parseInt (slice ub 2 4)) 1 \<or> js_greater (parseInt (slice ub 2 4)) 12
     \<or> js_less (parseInt (slice ub 4 6)) 1 \<or> js_greater (parseInt (slice ub 4 6)) 31"

text \<open>
  The range of the time fields of a frame that \<^verbatim>\<open>parseLTCFrame\<close> of
  sync-ltc-timecode.ts returns: the hour below 24 after its correction, the other fields two
  decimal digits. And the sample count that the formula of the derivation gives in exact
  arithmetic, with the frame rate 2997/100 for drop-frame.
\<close>

definition validTimecode :: "SyncFrame \<Rightarrow> bool" where
  "validTimecode fr \<longleftrightarrow>
     0 \<le> tcHour fr \<and> tcHour fr < 24 \<and> 0 \<le> tcMinute fr \<and> tcMinute fr < 100 \<and>
     0 \<le> tcSecond fr \<and> tcSecond fr < 100 \<and> 0 \<le> tcFrame fr \<and> tcFrame fr < 100"

definition timeReference_exact :: "SyncFrame \<Rightarrow> int" where
  "timeReference_exact fr =
    (let frameRate = (if tcDropFrame fr then 2997 / 100 else 30) :: rat;
         totalFrames =
           of_int (tcHour fr * 3600 + tcMinute fr * 60 + tcSecond fr) * frameRate
           + of_int (tcFrame fr)
     in round (totalFrames * 48000 / frameRate))"

definition dropFrameMinute :: SyncFrame where
  "dropFrameMinute =
     \<lparr>userBits = ''25091500'', timecode = ''00:01:00.00'', position = ''0'',
      year = Some 2025, month = Some 9, day = Some 15,
      tcHour = 0, tcMinute = 1, tcSecond = 0, tcFrame = 0, tcDropFrame = True\<rparr>"

section \<open>The frame parser decodes the fields\<close>

lemma nib4:
  "a \<le> 1 \<Longrightarrow> b \<le> 1 \<Longrightarrow> c \<le> 1 \<Longrightarrow> d \<le> 1 \<Longrightarrow>
   push_bit 3 a OR push_bit 2 b OR push_bit 1 c OR d = 8 * a + 4 * b + 2 * c + (d::nat)"
proof -
  assume "a \<le> 1" "b \<le> 1" "c \<le> 1" "d \<le> 1"
  then have "a = 0 \<or> a = 1" "b = 0 \<or> b = 1" "c = 0 \<or> c = 1" "d = 0 \<or> d = 1"
    by auto
  then show ?thesis
    by (elim disjE) (simp_all add: push_bit_eq_mult)
qed

lemma nib3:
  "b \<le> 1 \<Longrightarrow> c \<le> 1 \<Longrightarrow> d \<le> 1 \<Longrightarrow>
   push_bit 2 b OR push_bit 1 c OR d = 4 * b + 2 * c + (d::nat)"
  using nib4 [of 0 b c d] by simp

lemma nib2:
  "c \<le> 1 \<Longrightarrow> d \<le> 1 \<Longrightarrow> push_bit 1 c OR d = 2 * c + (d::nat)"
  using nib4 [of 0 0 c d] by simp

lemma bitOf_le1: "bitOf v k \<le> 1"
  by (simp add: bitOf_def)

lemma bitOf_01: "bitOf v k = 0 \<or> bitOf v k = 1"
  unfolding bitOf_def by presburger

lemma lt16_cases:
  "v < 16 \<Longrightarrow> v \<in> {0, 1, 2, 3, 4, 5, 6, 7, 8, 9, 10, 11, 12, 13, 14, 15::nat}"
proof -
  assume "v < 16"
  then have "v \<in> set [0..<16]" by simp
  also have "[0..<16] = [0, 1, 2, 3, 4, 5, 6, 7, 8, 9, 10, 11, 12, 13, 14, 15::nat]"
    by code_simp
  finally show ?thesis by simp
qed

lemma recomp4: "v < 16 \<Longrightarrow> 8 * bitOf v 3 + 4 * bitOf v 2 + 2 * bitOf v 1 + bitOf v 0 = v"
  by (drule lt16_cases, unfold bitOf_def, elim insertE emptyE) simp_all

lemma recomp3: "v < 8 \<Longrightarrow> 4 * bitOf v 2 + 2 * bitOf v 1 + bitOf v 0 = v"
  using recomp4 [of v] by (simp add: bitOf_def)

lemma recomp2: "v < 4 \<Longrightarrow> 2 * bitOf v 1 + bitOf v 0 = v"
  using recomp4 [of v] by (simp add: bitOf_def)

lemma countMatches_expectedSync: "countMatches expectedSync = 16"
  by code_simp

lemma parse_positional:
  assumes len: "80 \<le> length bits" and bin: "set bits \<subseteq> {0, 1}"
    and sync: "14 \<le> countMatches (slice bits 64 80)"
  shows "parseLTCFrame bits =
    Some \<lparr>frame = (2 * bits ! 9 + bits ! 8) * 10
                    + (8 * bits ! 3 + 4 * bits ! 2 + 2 * bits ! 1 + bits ! 0),
           second = (4 * bits ! 26 + 2 * bits ! 25 + bits ! 24) * 10
                    + (8 * bits ! 19 + 4 * bits ! 18 + 2 * bits ! 17 + bits ! 16),
           minute = (4 * bits ! 42 + 2 * bits ! 41 + bits ! 40) * 10
                    + (8 * bits ! 35 + 4 * bits ! 34 + 2 * bits ! 33 + bits ! 32),
           hour = (2 * bits ! 57 + bits ! 56) * 10
                    + (8 * bits ! 51 + 4 * bits ! 50 + 2 * bits ! 49 + bits ! 48),
           dropFrame = (bits ! 10 = 1),
           colorFrame = (bits ! 11 = 1),
           binaryGroup1 = 8 * bits ! 7 + 4 * bits ! 6 + 2 * bits ! 5 + bits ! 4,
           binaryGroup2 = 8 * bits ! 15 + 4 * bits ! 14 + 2 * bits ! 13 + bits ! 12,
           binaryGroup3 = 8 * bits ! 23 + 4 * bits ! 22 + 2 * bits ! 21 + bits ! 20,
           binaryGroup4 = 8 * bits ! 31 + 4 * bits ! 30 + 2 * bits ! 29 + bits ! 28,
           binaryGroup5 = 8 * bits ! 39 + 4 * bits ! 38 + 2 * bits ! 37 + bits ! 36,
           binaryGroup6 = 8 * bits ! 47 + 4 * bits ! 46 + 2 * bits ! 45 + bits ! 44,
           binaryGroup7 = 8 * bits ! 55 + 4 * bits ! 54 + 2 * bits ! 53 + bits ! 52,
           binaryGroup8 = 8 * bits ! 63 + 4 * bits ! 62 + 2 * bits ! 61 + bits ! 60\<rparr>"
proof -
  have b: "bits ! k \<le> 1" if "k < 80" for k
  proof -
    from that len have "bits ! k \<in> set bits" by simp
    with bin show ?thesis by auto
  qed
  have q4:
    "push_bit 3 (bits ! 3) OR push_bit 2 (bits ! 2) OR push_bit 1 (bits ! 1) OR bits ! 0 = 8 * bits ! 3 + 4 * bits ! 2 + 2 * bits ! 1 + bits ! 0"
    "push_bit 3 (bits ! 19) OR push_bit 2 (bits ! 18) OR push_bit 1 (bits ! 17) OR bits ! 16 = 8 * bits ! 19 + 4 * bits ! 18 + 2 * bits ! 17 + bits ! 16"
    "push_bit 3 (bits ! 35) OR push_bit 2 (bits ! 34) OR push_bit 1 (bits ! 33) OR bits ! 32 = 8 * bits ! 35 + 4 * bits ! 34 + 2 * bits ! 33 + bits ! 32"
    "push_bit 3 (bits ! 51) OR push_bit 2 (bits ! 50) OR push_bit 1 (bits ! 49) OR bits ! 48 = 8 * bits ! 51 + 4 * bits ! 50 + 2 * bits ! 49 + bits ! 48"
    "push_bit 3 (bits ! 7) OR push_bit 2 (bits ! 6) OR push_bit 1 (bits ! 5) OR bits ! 4 = 8 * bits ! 7 + 4 * bits ! 6 + 2 * bits ! 5 + bits ! 4"
    "push_bit 3 (bits ! 15) OR push_bit 2 (bits ! 14) OR push_bit 1 (bits ! 13) OR bits ! 12 = 8 * bits ! 15 + 4 * bits ! 14 + 2 * bits ! 13 + bits ! 12"
    "push_bit 3 (bits ! 23) OR push_bit 2 (bits ! 22) OR push_bit 1 (bits ! 21) OR bits ! 20 = 8 * bits ! 23 + 4 * bits ! 22 + 2 * bits ! 21 + bits ! 20"
    "push_bit 3 (bits ! 31) OR push_bit 2 (bits ! 30) OR push_bit 1 (bits ! 29) OR bits ! 28 = 8 * bits ! 31 + 4 * bits ! 30 + 2 * bits ! 29 + bits ! 28"
    "push_bit 3 (bits ! 39) OR push_bit 2 (bits ! 38) OR push_bit 1 (bits ! 37) OR bits ! 36 = 8 * bits ! 39 + 4 * bits ! 38 + 2 * bits ! 37 + bits ! 36"
    "push_bit 3 (bits ! 47) OR push_bit 2 (bits ! 46) OR push_bit 1 (bits ! 45) OR bits ! 44 = 8 * bits ! 47 + 4 * bits ! 46 + 2 * bits ! 45 + bits ! 44"
    "push_bit 3 (bits ! 55) OR push_bit 2 (bits ! 54) OR push_bit 1 (bits ! 53) OR bits ! 52 = 8 * bits ! 55 + 4 * bits ! 54 + 2 * bits ! 53 + bits ! 52"
    "push_bit 3 (bits ! 63) OR push_bit 2 (bits ! 62) OR push_bit 1 (bits ! 61) OR bits ! 60 = 8 * bits ! 63 + 4 * bits ! 62 + 2 * bits ! 61 + bits ! 60"
    by (rule nib4; rule b; simp)+
  have q3:
    "push_bit 2 (bits ! 26) OR push_bit 1 (bits ! 25) OR bits ! 24 = 4 * bits ! 26 + 2 * bits ! 25 + bits ! 24"
    "push_bit 2 (bits ! 42) OR push_bit 1 (bits ! 41) OR bits ! 40 = 4 * bits ! 42 + 2 * bits ! 41 + bits ! 40"
    by (rule nib3; rule b; simp)+
  have q2:
    "push_bit 1 (bits ! 9) OR bits ! 8 = 2 * bits ! 9 + bits ! 8"
    "push_bit 1 (bits ! 57) OR bits ! 56 = 2 * bits ! 57 + bits ! 56"
    by (rule nib2; rule b; simp)+
  have "\<not> length bits < 80" "\<not> countMatches (slice bits 64 80) < 14"
    using len sync by simp_all
  then show ?thesis
    unfolding parseLTCFrame_def Let_def q4 q3 q2 by (simp only: if_False)
qed

lemma encode_length: "length (encodeLTCFrame f) = 80"
  by (simp add: encodeLTCFrame_def Let_def expectedSync_def)

lemma encode_sync: "slice (encodeLTCFrame f) 64 80 = expectedSync"
  by (simp add: encodeLTCFrame_def Let_def slice_def expectedSync_def)

lemma encode_binary: "set (encodeLTCFrame f) \<subseteq> {0, 1}"
  using bitOf_01 by (auto simp: encodeLTCFrame_def Let_def expectedSync_def)

lemma parse_roundtrip:
  assumes "bcd_fields f"
  shows "parseLTCFrame (encodeLTCFrame f) = Some f"
proof -
  have u: "frame f mod 10 < 16" "second f mod 10 < 16" "minute f mod 10 < 16" "hour f mod 10 < 16"
    by (simp_all add: less_trans [OF mod_less_divisor])
  have t: "frame f div 10 < 4" "second f div 10 < 8" "minute f div 10 < 8" "hour f div 10 < 4"
    using assms by (simp_all add: bcd_fields_def less_mult_imp_div_less)
  have g: "binaryGroup1 f < 16" "binaryGroup2 f < 16" "binaryGroup3 f < 16" "binaryGroup4 f < 16"
    "binaryGroup5 f < 16" "binaryGroup6 f < 16" "binaryGroup7 f < 16" "binaryGroup8 f < 16"
    using assms by (simp_all add: bcd_fields_def)
  have nth:
    "encodeLTCFrame f ! 0 = bitOf (frame f mod 10) 0"
    "encodeLTCFrame f ! 1 = bitOf (frame f mod 10) 1"
    "encodeLTCFrame f ! 2 = bitOf (frame f mod 10) 2"
    "encodeLTCFrame f ! 3 = bitOf (frame f mod 10) 3"
    "encodeLTCFrame f ! 4 = bitOf (binaryGroup1 f) 0"
    "encodeLTCFrame f ! 5 = bitOf (binaryGroup1 f) 1"
    "encodeLTCFrame f ! 6 = bitOf (binaryGroup1 f) 2"
    "encodeLTCFrame f ! 7 = bitOf (binaryGroup1 f) 3"
    "encodeLTCFrame f ! 8 = bitOf (frame f div 10) 0"
    "encodeLTCFrame f ! 9 = bitOf (frame f div 10) 1"
    "encodeLTCFrame f ! 10 = (if dropFrame f then 1 else 0)"
    "encodeLTCFrame f ! 11 = (if colorFrame f then 1 else 0)"
    "encodeLTCFrame f ! 12 = bitOf (binaryGroup2 f) 0"
    "encodeLTCFrame f ! 13 = bitOf (binaryGroup2 f) 1"
    "encodeLTCFrame f ! 14 = bitOf (binaryGroup2 f) 2"
    "encodeLTCFrame f ! 15 = bitOf (binaryGroup2 f) 3"
    "encodeLTCFrame f ! 16 = bitOf (second f mod 10) 0"
    "encodeLTCFrame f ! 17 = bitOf (second f mod 10) 1"
    "encodeLTCFrame f ! 18 = bitOf (second f mod 10) 2"
    "encodeLTCFrame f ! 19 = bitOf (second f mod 10) 3"
    "encodeLTCFrame f ! 20 = bitOf (binaryGroup3 f) 0"
    "encodeLTCFrame f ! 21 = bitOf (binaryGroup3 f) 1"
    "encodeLTCFrame f ! 22 = bitOf (binaryGroup3 f) 2"
    "encodeLTCFrame f ! 23 = bitOf (binaryGroup3 f) 3"
    "encodeLTCFrame f ! 24 = bitOf (second f div 10) 0"
    "encodeLTCFrame f ! 25 = bitOf (second f div 10) 1"
    "encodeLTCFrame f ! 26 = bitOf (second f div 10) 2"
    "encodeLTCFrame f ! 28 = bitOf (binaryGroup4 f) 0"
    "encodeLTCFrame f ! 29 = bitOf (binaryGroup4 f) 1"
    "encodeLTCFrame f ! 30 = bitOf (binaryGroup4 f) 2"
    "encodeLTCFrame f ! 31 = bitOf (binaryGroup4 f) 3"
    "encodeLTCFrame f ! 32 = bitOf (minute f mod 10) 0"
    "encodeLTCFrame f ! 33 = bitOf (minute f mod 10) 1"
    "encodeLTCFrame f ! 34 = bitOf (minute f mod 10) 2"
    "encodeLTCFrame f ! 35 = bitOf (minute f mod 10) 3"
    "encodeLTCFrame f ! 36 = bitOf (binaryGroup5 f) 0"
    "encodeLTCFrame f ! 37 = bitOf (binaryGroup5 f) 1"
    "encodeLTCFrame f ! 38 = bitOf (binaryGroup5 f) 2"
    "encodeLTCFrame f ! 39 = bitOf (binaryGroup5 f) 3"
    "encodeLTCFrame f ! 40 = bitOf (minute f div 10) 0"
    "encodeLTCFrame f ! 41 = bitOf (minute f div 10) 1"
    "encodeLTCFrame f ! 42 = bitOf (minute f div 10) 2"
    "encodeLTCFrame f ! 44 = bitOf (binaryGroup6 f) 0"
    "encodeLTCFrame f ! 45 = bitOf (binaryGroup6 f) 1"
    "encodeLTCFrame f ! 46 = bitOf (binaryGroup6 f) 2"
    "encodeLTCFrame f ! 47 = bitOf (binaryGroup6 f) 3"
    "encodeLTCFrame f ! 48 = bitOf (hour f mod 10) 0"
    "encodeLTCFrame f ! 49 = bitOf (hour f mod 10) 1"
    "encodeLTCFrame f ! 50 = bitOf (hour f mod 10) 2"
    "encodeLTCFrame f ! 51 = bitOf (hour f mod 10) 3"
    "encodeLTCFrame f ! 52 = bitOf (binaryGroup7 f) 0"
    "encodeLTCFrame f ! 53 = bitOf (binaryGroup7 f) 1"
    "encodeLTCFrame f ! 54 = bitOf (binaryGroup7 f) 2"
    "encodeLTCFrame f ! 55 = bitOf (binaryGroup7 f) 3"
    "encodeLTCFrame f ! 56 = bitOf (hour f div 10) 0"
    "encodeLTCFrame f ! 57 = bitOf (hour f div 10) 1"
    "encodeLTCFrame f ! 60 = bitOf (binaryGroup8 f) 0"
    "encodeLTCFrame f ! 61 = bitOf (binaryGroup8 f) 1"
    "encodeLTCFrame f ! 62 = bitOf (binaryGroup8 f) 2"
    "encodeLTCFrame f ! 63 = bitOf (binaryGroup8 f) 3"
    by (simp_all add: encodeLTCFrame_def Let_def)
  have sync: "14 \<le> countMatches (slice (encodeLTCFrame f) 64 80)"
    by (simp add: encode_sync countMatches_expectedSync)
  have len: "80 \<le> length (encodeLTCFrame f)"
    by (simp add: encode_length)
  show ?thesis
    unfolding parse_positional [OF len encode_binary sync] nth
      u [THEN recomp4] g [THEN recomp4] t(1,4) [THEN recomp2] t(2,3) [THEN recomp3]
    by simp
qed

text \<open>
  Claim C2. A bit sequence of at least 80 channel bits whose sync check passes is decoded to
  the frame whose two-digit fields are tens times ten plus units, read least significant
  bit first from the positions of the layout (frame units 0 to 3 and tens 8 to 9, second units
  16 to 19 and tens 24 to 26, minute units 32 to 35 and tens 40 to 42, hour units 48 to 51 and
  tens 56 to 57), whose flags are bit 10 and bit 11, and whose eight user-bit groups are the
  nibbles at 4, 12, 20, 28, 36, 44, 52 and 60. Hence the frame constructed from field values
  that fit their bits is decoded to exactly those values.
\<close>

theorem parseLTCFrame_decodes_fields:
  "(80 \<le> length bs \<and> set bs \<subseteq> {0, 1} \<and> 14 \<le> countMatches (slice bs 64 80) \<longrightarrow>
     parseLTCFrame bs =
       Some \<lparr>frame = (2 * bs ! 9 + bs ! 8) * 10
                       + (8 * bs ! 3 + 4 * bs ! 2 + 2 * bs ! 1 + bs ! 0),
              second = (4 * bs ! 26 + 2 * bs ! 25 + bs ! 24) * 10
                       + (8 * bs ! 19 + 4 * bs ! 18 + 2 * bs ! 17 + bs ! 16),
              minute = (4 * bs ! 42 + 2 * bs ! 41 + bs ! 40) * 10
                       + (8 * bs ! 35 + 4 * bs ! 34 + 2 * bs ! 33 + bs ! 32),
              hour = (2 * bs ! 57 + bs ! 56) * 10
                       + (8 * bs ! 51 + 4 * bs ! 50 + 2 * bs ! 49 + bs ! 48),
              dropFrame = (bs ! 10 = 1),
              colorFrame = (bs ! 11 = 1),
              binaryGroup1 = 8 * bs ! 7 + 4 * bs ! 6 + 2 * bs ! 5 + bs ! 4,
              binaryGroup2 = 8 * bs ! 15 + 4 * bs ! 14 + 2 * bs ! 13 + bs ! 12,
              binaryGroup3 = 8 * bs ! 23 + 4 * bs ! 22 + 2 * bs ! 21 + bs ! 20,
              binaryGroup4 = 8 * bs ! 31 + 4 * bs ! 30 + 2 * bs ! 29 + bs ! 28,
              binaryGroup5 = 8 * bs ! 39 + 4 * bs ! 38 + 2 * bs ! 37 + bs ! 36,
              binaryGroup6 = 8 * bs ! 47 + 4 * bs ! 46 + 2 * bs ! 45 + bs ! 44,
              binaryGroup7 = 8 * bs ! 55 + 4 * bs ! 54 + 2 * bs ! 53 + bs ! 52,
              binaryGroup8 = 8 * bs ! 63 + 4 * bs ! 62 + 2 * bs ! 61 + bs ! 60\<rparr>) \<and>
   (bcd_fields f \<longrightarrow> parseLTCFrame (encodeLTCFrame f) = Some f)"
  using parse_positional [of bs] parse_roundtrip [of f] by blast

theorem parseLTCFrame_decodes_fields_witness:
  "parseLTCFrame (encodeLTCFrame exampleFrame) = Some exampleFrame \<and>
   parseLTCFrame (encodeLTCFrame exampleFrame) =
     Some \<lparr>frame = 4, second = 3, minute = 2, hour = 1, dropFrame = False, colorFrame = False,
            binaryGroup1 = 0, binaryGroup2 = 0, binaryGroup3 = 5, binaryGroup4 = 1,
            binaryGroup5 = 9, binaryGroup6 = 0, binaryGroup7 = 5, binaryGroup8 = 2\<rparr>"
proof -
  have h1: "80 \<le> length (encodeLTCFrame exampleFrame)"
    by (simp add: encode_length)
  have h2: "set (encodeLTCFrame exampleFrame) \<subseteq> {0, 1}"
    by (rule encode_binary)
  have h3: "14 \<le> countMatches (slice (encodeLTCFrame exampleFrame) 64 80)"
    by (simp add: encode_sync countMatches_expectedSync)
  have h4: "bcd_fields exampleFrame"
    by (simp add: bcd_fields_def exampleFrame_def)
  from parseLTCFrame_decodes_fields [of "encodeLTCFrame exampleFrame" exampleFrame] h1 h2 h3 h4
  have a: "parseLTCFrame (encodeLTCFrame exampleFrame) = Some exampleFrame"
    by blast
  then show ?thesis by (simp add: exampleFrame_def)
qed

section \<open>The sync search\<close>

lemma countMatches_errors:
  assumes "80 \<le> length w"
  shows "countMatches (slice w 64 80) + syncErrors w = 16"
proof -
  let ?s = "slice w 64 80"
  have len: "length ?s = 16" using assms by (simp add: slice_def)
  let ?z = "zip ?s [0..<16]"
  have "countMatches ?s = length (filter (\<lambda>(bit, i). bit = expectedSync ! i) ?z)"
    unfolding countMatches_def len
    by (rule arg_cong [where f = length], rule filter_cong)
       (auto simp: expectedSync_def dest: set_zip_rightD)
  moreover have "syncErrors w = length (filter (\<lambda>x. \<not> (\<lambda>(bit, i). bit = expectedSync ! i) x) ?z)"
    unfolding syncErrors_def
    by (rule arg_cong [where f = length], rule filter_cong) auto
  moreover have "length ?z = 16" using len by simp
  ultimately show ?thesis
    using sum_length_filter_compl [of "\<lambda>(bit, i). bit = expectedSync ! i" ?z] by simp
qed

lemma scanSync_none:
  "(\<forall>j\<ge>k. \<not> qualifies bits j) \<Longrightarrow> scanSync bits k = []"
proof (induction bits k rule: scanSync.induct)
  case (1 bits i)
  show ?case
  proof (cases "i + 80 \<le> length bits")
    case True
    from 1(3) have nq: "\<not> qualifies bits i" and rest: "\<forall>j\<ge>i + 1. \<not> qualifies bits j"
      by auto
    from nq True have lt: "\<not> 15 \<le> countMatches (slice (slice bits i (i + 80)) 64 80)"
      by (simp add: qualifies_def)
    have "scanSync bits (i + 1) = []"
      using 1(1) [OF _ True refl refl refl lt] True rest by simp
    then show ?thesis
      using True lt by (subst scanSync.simps) (simp add: Let_def)
  next
    case False
    then show ?thesis by (subst scanSync.simps) simp
  qed
qed

lemma scanSync_first:
  "qualifies bits i \<Longrightarrow> \<forall>j. k \<le> j \<and> j < i \<longrightarrow> \<not> qualifies bits j \<Longrightarrow> k \<le> i \<Longrightarrow>
   scanSync bits k = slice bits i (i + 80)"
proof (induction "i - k" arbitrary: k)
  case 0
  then have "k = i" by simp
  with 0 show ?case
    by (subst scanSync.simps) (simp add: qualifies_def Let_def)
next
  case (Suc n)
  then have lt: "k < i" by simp
  with Suc.prems have nq: "\<not> qualifies bits k" by simp
  from Suc.prems(1) lt have inr: "k + 80 \<le> length bits" by (simp add: qualifies_def)
  have "scanSync bits (k + 1) = slice bits i (i + 80)"
    using Suc.hyps(1) [of "k + 1"] Suc.hyps(2) Suc.prems lt by simp
  then show ?case
    using nq inr by (subst scanSync.simps) (simp add: qualifies_def Let_def)
qed

lemma parse_accept_iff:
  "80 \<le> length w \<Longrightarrow> parseLTCFrame w \<noteq> None \<longleftrightarrow> 14 \<le> countMatches (slice w 64 80)"
  by (simp add: parseLTCFrame_def Let_def)

lemma slice_whole: "length w = 80 \<Longrightarrow> slice w 0 80 = w"
  by (simp add: slice_def)

lemma scan_single:
  "length w = 80 \<Longrightarrow> scanSync w 0 = (if 15 \<le> countMatches (slice w 64 80) then w else [])"
proof -
  assume l: "length w = 80"
  have q: "qualifies w j \<longleftrightarrow> j = 0 \<and> 15 \<le> countMatches (slice w 64 80)" for j
    using l by (cases "j = 0") (auto simp: qualifies_def slice_whole)
  show ?thesis
  proof (cases "15 \<le> countMatches (slice w 64 80)")
    case True
    then have "qualifies w 0" by (simp add: q)
    from scanSync_first [OF this, of 0] l True show ?thesis by (simp add: slice_whole)
  next
    case False
    then have "\<forall>j\<ge>0. \<not> qualifies w j" by (simp add: q)
    from scanSync_none [OF this] False show ?thesis by simp
  qed
qed

text \<open>
  Claim C3. The free scan returns the window at the first offset whose sync word has at least
  15 of its 16 bits equal to the pattern 0011111111111101, and the empty array when no offset
  has; on a single 80-bit window it accepts exactly when at least 15 bits match, and the frame
  parser accepts exactly when at least 14 match. So a window with one corrupted sync bit is
  accepted by both, and a window with three or more corrupted sync bits by neither.
\<close>

theorem frame_synchronizer:
  "(qualifies bits i \<and> (\<forall>j<i. \<not> qualifies bits j) \<longrightarrow> scanSync bits 0 = slice bits i (i + 80)) \<and>
   ((\<forall>j. \<not> qualifies bits j) \<longrightarrow> scanSync bits 0 = []) \<and>
   (length w = 80 \<longrightarrow> (scanSync w 0 = w \<longleftrightarrow> 15 \<le> countMatches (slice w 64 80))) \<and>
   (80 \<le> length w \<longrightarrow> (parseLTCFrame w \<noteq> None \<longleftrightarrow> 14 \<le> countMatches (slice w 64 80))) \<and>
   (length w = 80 \<and> syncErrors w = 1 \<longrightarrow> scanSync w 0 = w \<and> parseLTCFrame w \<noteq> None) \<and>
   (length w = 80 \<and> 3 \<le> syncErrors w \<longrightarrow> scanSync w 0 = [] \<and> parseLTCFrame w = None)"
proof (intro conjI impI)
  assume "qualifies bits i \<and> (\<forall>j<i. \<not> qualifies bits j)"
  then show "scanSync bits 0 = slice bits i (i + 80)"
    using scanSync_first [of bits i 0] by simp
next
  assume "\<forall>j. \<not> qualifies bits j"
  then show "scanSync bits 0 = []"
    using scanSync_none [of 0 bits] by simp
next
  assume l: "length w = 80"
  then have "w \<noteq> []" by auto
  then show "scanSync w 0 = w \<longleftrightarrow> 15 \<le> countMatches (slice w 64 80)"
    using scan_single [OF l] by auto
next
  assume "80 \<le> length w"
  then show "parseLTCFrame w \<noteq> None \<longleftrightarrow> 14 \<le> countMatches (slice w 64 80)"
    by (rule parse_accept_iff)
next
  assume a: "length w = 80 \<and> syncErrors w = 1"
  then have "countMatches (slice w 64 80) = 15"
    using countMatches_errors [of w] by simp
  then show "scanSync w 0 = w" "parseLTCFrame w \<noteq> None"
    using a scan_single [of w] parse_accept_iff [of w] by simp_all
next
  assume a: "length w = 80 \<and> 3 \<le> syncErrors w"
  then have "countMatches (slice w 64 80) \<le> 13"
    using countMatches_errors [of w] by simp
  then show "scanSync w 0 = []" "parseLTCFrame w = None"
    using a scan_single [of w] parse_accept_iff [of w] by simp_all
qed

theorem frame_synchronizer_witness:
  "scanSync (0 # encodeLTCFrame exampleFrame) 0 = encodeLTCFrame exampleFrame \<and>
   scanSync (replicate 80 0) 0 = [] \<and>
   scanSync ((encodeLTCFrame exampleFrame)[64 := 1]) 0 = (encodeLTCFrame exampleFrame)[64 := 1] \<and>
   parseLTCFrame ((encodeLTCFrame exampleFrame)[64 := 1]) \<noteq> None \<and>
   scanSync ((encodeLTCFrame exampleFrame)[64 := 1, 65 := 1, 66 := 0]) 0 = [] \<and>
   parseLTCFrame ((encodeLTCFrame exampleFrame)[64 := 1, 65 := 1, 66 := 0]) = None"
proof -
  let ?e = "encodeLTCFrame exampleFrame"
  let ?w1 = "?e[64 := 1]"
  let ?w3 = "?e[64 := 1, 65 := 1, 66 := 0]"
  have q1: "qualifies (0 # ?e) 1" by code_simp
  have q0: "\<forall>j<1. \<not> qualifies (0 # ?e) j"
  proof (intro allI impI)
    fix j :: nat assume "j < 1"
    then have "j = 0" by simp
    moreover have "\<not> qualifies (0 # ?e) 0" by code_simp
    ultimately show "\<not> qualifies (0 # ?e) j" by simp
  qed
  have s1: "slice (0 # ?e) 1 (1 + 80) = ?e"
    by (simp add: slice_def encode_length)
  have none: "\<forall>j. \<not> qualifies (replicate 80 0) j"
  proof
    fix j
    have "\<not> qualifies (replicate 80 0) 0" by code_simp
    then show "\<not> qualifies (replicate 80 0) j"
      by (cases "j = 0") (simp_all add: qualifies_def)
  qed
  have l1: "length ?w1 = 80" and l3: "length ?w3 = 80"
    by (simp_all add: encode_length)
  have e1: "syncErrors ?w1 = 1" by code_simp
  have e3: "3 \<le> syncErrors ?w3" by code_simp
  note fs1 = frame_synchronizer [of "0 # ?e" 1 ?w1]
  from fs1 q1 q0 have "scanSync (0 # ?e) 0 = slice (0 # ?e) 1 (1 + 80)" by blast
  then have a1: "scanSync (0 # ?e) 0 = ?e" by (simp only: s1)
  from fs1 l1 e1 have a2: "scanSync ?w1 0 = ?w1 \<and> parseLTCFrame ?w1 \<noteq> None" by blast
  note fs3 = frame_synchronizer [of "replicate 80 0" 0 ?w3]
  from fs3 none have b1: "scanSync (replicate 80 0) 0 = []" by blast
  from fs3 l3 e3 have b2: "scanSync ?w3 0 = [] \<and> parseLTCFrame ?w3 = None" by blast
  from a1 a2 b1 b2 show ?thesis by blast
qed

section \<open>Short inputs\<close>

text \<open>
  Claim C10. On fewer than 80 bits the frame parser returns \<^verbatim>\<open>null\<close> and has read no bit;
  on any input, every index it reads lies inside the input.
\<close>

theorem parseLTCFrame_short:
  "(length bits < 80 \<longrightarrow> parseLTCFrame bits = None \<and> parseLTCFrame_reads bits = []) \<and>
   (\<forall>i \<in> set (parseLTCFrame_reads bits). i < length bits)"
  by (auto simp: parseLTCFrame_def parseLTCFrame_reads_def)

theorem parseLTCFrame_short_witness:
  "parseLTCFrame [1, 0, 1] = None \<and> parseLTCFrame_reads [1, 0, 1] = [] \<and>
   63 < length (encodeLTCFrame exampleFrame)"
proof -
  have "63 \<in> set (parseLTCFrame_reads (encodeLTCFrame exampleFrame))"
    by (simp add: parseLTCFrame_reads_def encode_length encode_sync countMatches_expectedSync)
  with parseLTCFrame_short [of "encodeLTCFrame exampleFrame"]
  have "63 < length (encodeLTCFrame exampleFrame)" by blast
  with parseLTCFrame_short [of "[1, 0, 1]"] show ?thesis by simp
qed

section \<open>The Manchester decoder\<close>

lemma onSample_quiet:
  "(if d then 1 else 0) = currentState st \<Longrightarrow>
   onSample keep alpha st d = st\<lparr>samplesSinceChange := samplesSinceChange st + 1\<rparr>"
  by (simp add: onSample_def Let_def)

lemma onSample_change:
  assumes "(if d then 1 else 0) \<noteq> currentState st"
  shows "onSample keep alpha st d =
    (let elapsed = samplesSinceChange st + 1;
         pending = (if pendingBit st then [1] else [])
     in if of_nat elapsed < dmul (dmul (samplesPerBit st) (1 / 2)) (3 / 2) then
          st\<lparr>currentState := (if d then 1 else 0), samplesSinceChange := 0,
             recovered := recovered st @ pending, pendingBit := \<not> pendingBit st\<rparr>
        else if of_nat elapsed < dmul (samplesPerBit st) (3 / 2) then
          st\<lparr>currentState := (if d then 1 else 0), samplesSinceChange := 0,
             recovered := recovered st @ pending @ [0], pendingBit := False,
             samplesPerBit := dadd (dmul (samplesPerBit st) keep) (dmul (of_nat elapsed) alpha)\<rparr>
        else
          st\<lparr>currentState := (if d then 1 else 0), samplesSinceChange := 0,
             recovered := recovered st @ pending, pendingBit := False\<rparr>)"
  using assms by (simp add: onSample_def Let_def)

lemma smoothing_constants: "c099 = fl (1 - c001)" "c095 = fl (1 - c005)"
  by (code_simp, code_simp)

lemma bit_period_48000: "ddiv 48000 2400 = 20" by code_simp

lemma half_bit_threshold: "dmul (dmul 20 (1 / 2)) (3 / 2) = 15" by code_simp

lemma full_bit_threshold: "dmul 20 (3 / 2) = 30" by code_simp

lemma smoothing_fixed_point: "dadd (dmul 20 c099) (dmul 20 c001) = 20" by code_simp

lemma decodeIntervals_stop:
  "\<not> length bs < budget \<Longrightarrow> decodeIntervals budget alpha (period, bs, p) es = (period, bs, p)"
  by (cases es) simp_all

lemma recoveryOf_quiet:
  "(if d then 1 else 0) = currentState st \<Longrightarrow>
   recoveryOf (onSample keep alpha st d) = recoveryOf st"
  by (simp add: onSample_quiet recoveryOf_def)

lemma recoveryOf_change:
  "(if d then 1 else 0) \<noteq> currentState st \<Longrightarrow>
   recoveryOf (onSample (fl (1 - alpha)) alpha st d)
     = classifyInterval alpha (recoveryOf st) (samplesSinceChange st + 1)"
  by (simp add: onSample_change recoveryOf_def classifyInterval_def Let_def)

lemma manchesterLoop_intervals:
  "currentState st = (if c then 1 else 0) \<Longrightarrow>
   recoveryOf (manchesterLoop budget (fl (1 - alpha)) alpha st ds)
     = decodeIntervals budget alpha (recoveryOf st)
         (butlast ((samplesSinceChange st + 1 + length (takeWhile (\<lambda>e. e = c) ds))
                   # runLengths (dropWhile (\<lambda>e. e = c) ds)))"
proof (induction ds arbitrary: st c)
  case Nil
  then show ?case by simp
next
  case (Cons d ds)
  let ?st = "onSample (fl (1 - alpha)) alpha st d"
  show ?case
  proof (cases "length (recovered st) < budget")
    case False
    then show ?thesis
      by (simp add: recoveryOf_def decodeIntervals_stop)
  next
    case lt: True
    then have step: "manchesterLoop budget (fl (1 - alpha)) alpha st (d # ds)
        = manchesterLoop budget (fl (1 - alpha)) alpha ?st ds"
      by simp
    show ?thesis
    proof (cases "d = c")
      case True
      from True Cons.prems have q: "(if d then 1 else 0) = currentState st" by simp
      then have s: "currentState ?st = (if c then 1 else 0)"
        "samplesSinceChange ?st = samplesSinceChange st + 1"
        using Cons.prems by (simp_all add: onSample_quiet)
      have runs:
        "(samplesSinceChange st + 1 + length (takeWhile (\<lambda>e. e = c) (d # ds)))
            # runLengths (dropWhile (\<lambda>e. e = c) (d # ds))
         = (samplesSinceChange ?st + 1 + length (takeWhile (\<lambda>e. e = c) ds))
            # runLengths (dropWhile (\<lambda>e. e = c) ds)"
        unfolding s(2) using True by simp
      show ?thesis
        unfolding step runs Cons.IH [OF s(1)] recoveryOf_quiet [OF q] ..
    next
      case False
      from False Cons.prems have q: "(if d then 1 else 0) \<noteq> currentState st" by auto
      then have s: "currentState ?st = (if d then 1 else 0)" "samplesSinceChange ?st = 0"
        by (simp_all add: onSample_change Let_def)
      have l: "length (fst (snd (recoveryOf st))) < budget"
        using lt by (simp add: recoveryOf_def)
      have runs:
        "butlast ((samplesSinceChange st + 1 + length (takeWhile (\<lambda>e. e = c) (d # ds)))
            # runLengths (dropWhile (\<lambda>e. e = c) (d # ds)))
         = (samplesSinceChange st + 1)
            # butlast ((samplesSinceChange ?st + 1 + length (takeWhile (\<lambda>e. e = d) ds))
                       # runLengths (dropWhile (\<lambda>e. e = d) ds))"
        unfolding s(2) using False by simp
      show ?thesis
        unfolding step runs Cons.IH [OF s(1)]
        using l by (simp only: decodeIntervals.simps if_True recoveryOf_change [OF q])
    qed
  qed
qed

lemma initial_intervals:
  "recoveryOf (manchesterLoop budget (fl (1 - alpha)) alpha
      (initialDecoder digital sampleRate) (drop 1 digital))
     = decodeIntervals budget alpha (ddiv (of_nat sampleRate) 2400, [], False) (intervals digital)"
proof (cases digital)
  case Nil
  then show ?thesis by (simp add: intervals_def initialDecoder_def recoveryOf_def)
next
  case (Cons d ds)
  have c: "currentState (initialDecoder digital sampleRate) = (if d then 1 else 0)"
    by (simp add: initialDecoder_def Cons)
  have r: "recoveryOf (initialDecoder digital sampleRate) = (ddiv (of_nat sampleRate) 2400, [], False)"
    "samplesSinceChange (initialDecoder digital sampleRate) = 0"
    by (simp_all add: initialDecoder_def recoveryOf_def)
  show ?thesis
    unfolding manchesterLoop_intervals [OF c] r
    by (simp add: Cons intervals_def)
qed

text \<open>
  Claim C4. For every polarity trace and sample rate, the bit period, the bits and the pending
  flag at the end of the sample loop of \<^verbatim>\<open>detectManchesterBits\<close> are those of classifying, in
  order, the interval that elapsed at each polarity change of the trace, with
  \<open>alpha = 0.01\<close> and while fewer than 1000 bits are recovered; at the end of the loop of
  \<^verbatim>\<open>detectManchesterBitsFromPosition\<close>, with \<open>alpha = 0.05\<close> and while fewer than 80 bits are
  recovered. The classification (\<open>classifyInterval\<close>): shorter than 1.5 times the half-bit
  period, a pending half-bit is emitted as 1 and otherwise the pending flag is set; otherwise,
  shorter than 1.5 times the bit period, a pending half-bit is emitted as 1, then a 0 is
  emitted and the bit period becomes \<open>old * (1 - alpha) + elapsed * alpha\<close>; otherwise a
  pending half-bit is closed as 1, no 0 is emitted and the bit period is unchanged. The bits
  that the two functions go on with are the bits so recovered, after the flush of a pending
  half-bit.
\<close>

theorem bit_recoverer_classifies_intervals:
  "recoveryOf (manchesterLoop 1000 c099 c001 (initialDecoder digital sampleRate) (drop 1 digital))
     = decodeIntervals 1000 c001 (ddiv (of_nat sampleRate) 2400, [], False) (intervals digital) \<and>
   recoveryOf (manchesterLoop 80 c095 c005 (initialDecoder digital sampleRate) (drop 1 digital))
     = decodeIntervals 80 c005 (ddiv (of_nat sampleRate) 2400, [], False) (intervals digital) \<and>
   detectManchesterBits_bits digital sampleRate =
     (case decodeIntervals 1000 c001 (ddiv (of_nat sampleRate) 2400, [], False) (intervals digital)
      of (period, bits, pending) \<Rightarrow> if pending then bits @ [1] else bits) \<and>
   detectManchesterBitsFromPosition digital sampleRate =
     (case decodeIntervals 80 c005 (ddiv (of_nat sampleRate) 2400, [], False) (intervals digital)
      of (period, bits, pending) \<Rightarrow>
        slice (if pending \<and> length bits < 80 then bits @ [1] else bits) 0 80)"
proof -
  let ?a = "manchesterLoop 1000 c099 c001 (initialDecoder digital sampleRate) (drop 1 digital)"
  let ?b = "manchesterLoop 80 c095 c005 (initialDecoder digital sampleRate) (drop 1 digital)"
  let ?r = "(ddiv (of_nat sampleRate) 2400, [], False) :: recovery"
  have a: "recoveryOf ?a = decodeIntervals 1000 c001 ?r (intervals digital)"
    unfolding smoothing_constants by (rule initial_intervals)
  have b: "recoveryOf ?b = decodeIntervals 80 c005 ?r (intervals digital)"
    unfolding smoothing_constants by (rule initial_intervals)
  have c: "detectManchesterBits_bits digital sampleRate =
      (case recoveryOf ?a of (period, bits, pending) \<Rightarrow> if pending then bits @ [1] else bits)"
    by (simp add: detectManchesterBits_bits_def recoveryOf_def Let_def)
  have d: "detectManchesterBitsFromPosition digital sampleRate =
      (case recoveryOf ?b of (period, bits, pending) \<Rightarrow>
         slice (if pending \<and> length bits < 80 then bits @ [1] else bits) 0 80)"
    by (simp add: detectManchesterBitsFromPosition_def recoveryOf_def Let_def)
  from a b c d show ?thesis by simp
qed

lemma onSample_within_budget:
  "length (recovered st) < budget \<Longrightarrow> within_budget budget (onSample keep alpha st d)"
  by (cases "(if d then 1 else 0) = currentState st")
     (auto simp: onSample_quiet onSample_change within_budget_def Let_def)

lemma manchesterLoop_within_budget:
  "within_budget budget st \<Longrightarrow> within_budget budget (manchesterLoop budget keep alpha st ds)"
  by (induction ds arbitrary: st) (simp_all add: onSample_within_budget)

lemma initial_within_budget: "within_budget budget (initialDecoder digital sampleRate)"
  by (simp add: within_budget_def initialDecoder_def)

lemma final_within_budget:
  "within_budget budget
     (manchesterLoop budget keep alpha (initialDecoder digital sampleRate) (drop 1 digital))"
  by (rule manchesterLoop_within_budget) (rule initial_within_budget)

lemma scanSync_length: "scanSync bs k = [] \<or> length (scanSync bs k) = 80"
proof (induction bs k rule: scanSync.induct)
  case (1 bits i)
  show ?case
  proof (cases "i + 80 \<le> length bits")
    case True
    show ?thesis
    proof (cases "15 \<le> countMatches (slice (slice bits i (i + 80)) 64 80)")
      case m: True
      with True show ?thesis
        by (subst (1 2) scanSync.simps) (simp add: Let_def slice_def)
    next
      case m: False
      with True 1(1) [OF _ True refl refl refl m] show ?thesis
        by (subst (1 2) scanSync.simps) (simp add: Let_def)
    qed
  next
    case False
    then show ?thesis by (subst scanSync.simps) simp
  qed
qed

lemma loop_quiet:
  "length bs < budget \<Longrightarrow>
   manchesterLoop budget keep alpha (stAt c n bs p) (replicate k c @ rest)
     = manchesterLoop budget keep alpha (stAt c (n + k) bs p) rest"
proof (induction k arbitrary: n)
  case 0
  then show ?case by simp
next
  case (Suc k)
  have "onSample keep alpha (stAt c n bs p) c = stAt c (Suc n) bs p"
    by (subst onSample_quiet) (simp_all add: stAt_def)
  with Suc show ?case by (simp add: stAt_def)
qed

lemma step_full:
  "onSample c099 c001 (stAt c 19 bs p) (\<not> c) = stAt (\<not> c) 0 (bs @ (if p then [1] else []) @ [0]) False"
  by (subst onSample_change) (simp_all add: stAt_def Let_def half_bit_threshold full_bit_threshold smoothing_fixed_point)

lemma step_half:
  "onSample c099 c001 (stAt c 9 bs False) (\<not> c) = stAt (\<not> c) 0 bs True"
  by (subst onSample_change) (simp_all add: stAt_def Let_def half_bit_threshold full_bit_threshold smoothing_fixed_point)

lemma loop_full:
  assumes "length bs < 1000"
  shows "manchesterLoop 1000 c099 c001 (stAt c 0 bs p) (replicate 19 c @ [\<not> c] @ rest)
     = manchesterLoop 1000 c099 c001 (stAt (\<not> c) 0 (bs @ (if p then [1] else []) @ [0]) False) rest"
proof -
  have "manchesterLoop 1000 c099 c001 (stAt c 0 bs p) (replicate 19 c @ [\<not> c] @ rest)
      = manchesterLoop 1000 c099 c001 (stAt c 19 bs p) ((\<not> c) # rest)"
    using loop_quiet [OF assms, of c099 c001 c 0 p 19 "[\<not> c] @ rest"] by simp
  also have "\<dots> = manchesterLoop 1000 c099 c001 (onSample c099 c001 (stAt c 19 bs p) (\<not> c)) rest"
    using assms by (simp add: stAt_def)
  finally show ?thesis by (simp only: step_full)
qed

lemma loop_half:
  assumes "length bs < 1000"
  shows "manchesterLoop 1000 c099 c001 (stAt c 0 bs False) (replicate 9 c @ [\<not> c] @ rest)
     = manchesterLoop 1000 c099 c001 (stAt (\<not> c) 0 bs True) rest"
proof -
  have "manchesterLoop 1000 c099 c001 (stAt c 0 bs False) (replicate 9 c @ [\<not> c] @ rest)
      = manchesterLoop 1000 c099 c001 (stAt c 9 bs False) ((\<not> c) # rest)"
    using loop_quiet [OF assms, of c099 c001 c 0 False 9 "[\<not> c] @ rest"] by simp
  also have "\<dots> = manchesterLoop 1000 c099 c001 (onSample c099 c001 (stAt c 9 bs False) (\<not> c)) rest"
    using assms by (simp add: stAt_def)
  finally show ?thesis by (simp only: step_half)
qed

lemma loop_fullBits:
  "length bs + n \<le> 1000 \<Longrightarrow>
   manchesterLoop 1000 c099 c001 (stAt c 0 bs False) (fullBits n c @ rest)
     = manchesterLoop 1000 c099 c001 (stAt (if even n then c else \<not> c) 0 (bs @ replicate n 0) False) rest"
proof (induction n arbitrary: c bs)
  case 0
  then show ?case by simp
next
  case (Suc n)
  from Suc.prems have lt: "length bs < 1000" and le: "length (bs @ [0]) + n \<le> 1000"
    by simp_all
  have "manchesterLoop 1000 c099 c001 (stAt c 0 bs False) (fullBits (Suc n) c @ rest)
      = manchesterLoop 1000 c099 c001 (stAt (\<not> c) 0 (bs @ [0]) False) (fullBits n (\<not> c) @ rest)"
    using loop_full [OF lt, of c False "fullBits n (\<not> c) @ rest"] by simp
  also have "\<dots> = manchesterLoop 1000 c099 c001
      (stAt (if even n then \<not> c else \<not> \<not> c) 0 ((bs @ [0]) @ replicate n 0) False) rest"
    by (rule Suc.IH [OF le])
  finally show ?case by (simp add: replicate_app_Cons_same)
qed

lemma overshoot_bits:
  "detectManchesterBits_bits overshootTrace 48000 = replicate 999 0 @ [1, 0]"
proof -
  have init: "initialDecoder overshootTrace 48000 = stAt False 0 [] False"
    by (simp add: initialDecoder_def overshootTrace_def stAt_def bit_period_48000)
  have "manchesterLoop 1000 c099 c001 (stAt False 0 [] False) (drop 1 overshootTrace)
      = manchesterLoop 1000 c099 c001 (stAt True 0 (replicate 999 0) False)
          (replicate 9 True @ [False] @ replicate 19 False @ [True])"
    using loop_fullBits [of "[]" 999 False "(replicate 9 True @ [False]) @ (replicate 19 False @ [True])"]
    by (simp add: overshootTrace_def)
  also have "\<dots> = manchesterLoop 1000 c099 c001 (stAt False 0 (replicate 999 0) True)
          (replicate 19 False @ [True] @ [])"
    using loop_half [of "replicate 999 0" True "replicate 19 False @ [True]"] by simp
  also have "\<dots> = manchesterLoop 1000 c099 c001 (stAt True 0 (replicate 999 0 @ [1, 0]) False) []"
    using loop_full [of "replicate 999 0" False True "[]"] by simp
  finally show ?thesis
    by (simp add: detectManchesterBits_bits_def init stAt_def)
qed

text \<open>
  Claim C5, amended. The bits that the free scan recovers are at most 1001, one more than
  its budget of 1000, and what it returns is empty or a window of 80 bits; the decode from a
  position returns at most 80 bits. At the end of the input of the free scan a half-bit is
  pending only when fewer than 1000 bits were recovered, so it is flushed only below the budget;
  the decode from a position tests the budget before it flushes.
\<close>

theorem bit_recoverer_budget:
  "length (detectManchesterBits_bits digital sampleRate) \<le> 1001 \<and>
   (detectManchesterBits digital sampleRate = [] \<or>
    length (detectManchesterBits digital sampleRate) = 80) \<and>
   length (detectManchesterBitsFromPosition digital sampleRate) \<le> 80 \<and>
   (pendingBit (manchesterLoop 1000 c099 c001 (initialDecoder digital sampleRate) (drop 1 digital))
      \<longrightarrow> length (recovered (manchesterLoop 1000 c099 c001
                    (initialDecoder digital sampleRate) (drop 1 digital))) < 1000) \<and>
   detectManchesterBitsFromPosition digital sampleRate =
     slice (let st = manchesterLoop 80 c095 c005 (initialDecoder digital sampleRate) (drop 1 digital)
            in if pendingBit st \<and> length (recovered st) < 80
               then recovered st @ [1] else recovered st) 0 80"
proof -
  let ?st = "manchesterLoop 1000 c099 c001 (initialDecoder digital sampleRate) (drop 1 digital)"
  have w: "within_budget 1000 ?st" by (rule final_within_budget)
  then have a: "length (detectManchesterBits_bits digital sampleRate) \<le> 1001"
    by (auto simp: detectManchesterBits_bits_def within_budget_def Let_def)
  have b: "detectManchesterBits digital sampleRate = [] \<or>
      length (detectManchesterBits digital sampleRate) = 80"
    unfolding detectManchesterBits_def by (rule scanSync_length)
  have c: "length (detectManchesterBitsFromPosition digital sampleRate) \<le> 80"
    by (simp add: detectManchesterBitsFromPosition_def Let_def slice_def)
  have d: "pendingBit ?st \<longrightarrow> length (recovered ?st) < 1000"
    using w by (simp add: within_budget_def)
  have e: "detectManchesterBitsFromPosition digital sampleRate =
     slice (let st = manchesterLoop 80 c095 c005 (initialDecoder digital sampleRate) (drop 1 digital)
            in if pendingBit st \<and> length (recovered st) < 80
               then recovered st @ [1] else recovered st) 0 80"
    by (simp add: detectManchesterBitsFromPosition_def Let_def)
  from a b c d e show ?thesis by blast
qed

lemma pendingTrace_final:
  "manchesterLoop 1000 c099 c001 (initialDecoder pendingTrace 48000) (drop 1 pendingTrace)
     = stAt False 0 [0] True"
proof -
  have init: "initialDecoder pendingTrace 48000 = stAt False 0 [] False"
    by (simp add: initialDecoder_def pendingTrace_def stAt_def bit_period_48000)
  have "manchesterLoop 1000 c099 c001 (stAt False 0 [] False) (drop 1 pendingTrace)
      = manchesterLoop 1000 c099 c001 (stAt True 0 [0] False) (replicate 9 True @ [False] @ [])"
    using loop_full [of "[]" False False "replicate 9 True @ [False]"]
    by (simp add: pendingTrace_def)
  also have "\<dots> = manchesterLoop 1000 c099 c001 (stAt False 0 [0] True) []"
    using loop_half [of "[0]" True "[]"] by simp
  finally show ?thesis by (simp add: init)
qed

theorem bit_recoverer_budget_witness:
  "pendingBit (manchesterLoop 1000 c099 c001 (initialDecoder pendingTrace 48000) (drop 1 pendingTrace))
   \<and> length (recovered (manchesterLoop 1000 c099 c001
                (initialDecoder pendingTrace 48000) (drop 1 pendingTrace))) < 1000
   \<and> detectManchesterBits_bits pendingTrace 48000 = [0, 1]"
proof -
  have p: "pendingBit (manchesterLoop 1000 c099 c001
             (initialDecoder pendingTrace 48000) (drop 1 pendingTrace))"
    unfolding pendingTrace_final by (simp add: stAt_def)
  with bit_recoverer_budget [of pendingTrace 48000]
  have "length (recovered (manchesterLoop 1000 c099 c001
                (initialDecoder pendingTrace 48000) (drop 1 pendingTrace))) < 1000"
    by blast
  moreover have "detectManchesterBits_bits pendingTrace 48000 = [0, 1]"
    unfolding detectManchesterBits_bits_def pendingTrace_final by (simp add: stAt_def)
  ultimately show ?thesis using p by blast
qed

text \<open>
  Claim C5 as stated fails: after 999 bits, a full-bit interval that closes a pending half-bit
  pushes two bits, and the free scan holds 1001.
\<close>

theorem overshoot_counterexample:
  "\<not> length (detectManchesterBits_bits overshootTrace 48000) \<le> 1000"
  by (simp add: overshoot_bits)

lemma pendingTrace_intervals: "intervals pendingTrace = [20, 10]"
  by code_simp

lemma spuriousTrace_intervals: "intervals spuriousTrace = [10, 30]"
  by code_simp

lemma fromPosition_fixed_point: "dadd (dmul 20 c095) (dmul 20 c005) = 20" by code_simp

lemma pendingTrace_fromPosition:
  "decodeIntervals 80 c005 (20, [], False) [20, 10] = (20, [0], True)"
  by (simp add: classifyInterval_def half_bit_threshold full_bit_threshold
      smoothing_constants [symmetric] fromPosition_fixed_point)

lemma spuriousTrace_reference:
  "decodeIntervals 1000 c001 (20, [], False) [10, 30] = (20, [1], False)"
  by (simp add: classifyInterval_def half_bit_threshold full_bit_threshold)

text \<open>
  The trace of one zero bit and a half-bit interval: its intervals are 20 and 10 samples, the
  free scan recovers the bit 0 and flushes the half-bit as 1, and so does the decode from a
  position. The trace with a spurious interval of 30 samples after a half-bit: the half-bit is
  closed as 1 and no 0 is emitted.
\<close>

theorem bit_recoverer_classifies_intervals_witness:
  "intervals pendingTrace = [20, 10] \<and>
   decodeIntervals 1000 c001 (20, [], False) [20, 10] = (20, [0], True) \<and>
   detectManchesterBits_bits pendingTrace 48000 = [0, 1] \<and>
   recoveryOf (manchesterLoop 80 c095 c005 (initialDecoder pendingTrace 48000) (drop 1 pendingTrace))
     = (20, [0], True) \<and>
   detectManchesterBitsFromPosition pendingTrace 48000 = [0, 1] \<and>
   intervals spuriousTrace = [10, 30] \<and>
   recoveryOf (manchesterLoop 1000 c099 c001 (initialDecoder spuriousTrace 48000) (drop 1 spuriousTrace))
     = (20, [1], False) \<and>
   detectManchesterBits_bits spuriousTrace 48000 = [1]"
proof -
  have k: "ddiv (of_nat 48000) 2400 = 20"
    by (simp add: bit_period_48000)
  have r: "recoveryOf (stAt False 0 [0] True) = (20, [0], True)"
    by (simp add: recoveryOf_def stAt_def)
  note t = bit_recoverer_classifies_intervals
    [of pendingTrace 48000, unfolded pendingTrace_intervals k pendingTrace_final r]
  note u = bit_recoverer_classifies_intervals
    [of spuriousTrace 48000, unfolded spuriousTrace_intervals k spuriousTrace_reference]
  from t have a: "decodeIntervals 1000 c001 (20, [], False) [20, 10] = (20, [0], True)"
    by (simp only:)
  from t have "detectManchesterBits_bits pendingTrace 48000 =
     (case decodeIntervals 1000 c001 (20, [], False) [20, 10]
      of (period, bits, pending) \<Rightarrow> if pending then bits @ [1] else bits)"
    by blast
  then have b: "detectManchesterBits_bits pendingTrace 48000 = [0, 1]"
    unfolding a by simp
  from t have c: "recoveryOf (manchesterLoop 80 c095 c005
      (initialDecoder pendingTrace 48000) (drop 1 pendingTrace)) = (20, [0], True)"
    unfolding pendingTrace_fromPosition by blast
  from t have "detectManchesterBitsFromPosition pendingTrace 48000 =
     (case decodeIntervals 80 c005 (20, [], False) [20, 10]
      of (period, bits, pending) \<Rightarrow>
        slice (if pending \<and> length bits < 80 then bits @ [1] else bits) 0 80)"
    by blast
  then have d: "detectManchesterBitsFromPosition pendingTrace 48000 = [0, 1]"
    unfolding pendingTrace_fromPosition by (simp add: slice_def)
  from u have e: "recoveryOf (manchesterLoop 1000 c099 c001
      (initialDecoder spuriousTrace 48000) (drop 1 spuriousTrace)) = (20, [1], False)"
    by blast
  from u have "detectManchesterBits_bits spuriousTrace 48000 =
     (case (20, [1], False) :: recovery
      of (period, bits, pending) \<Rightarrow> if pending then bits @ [1] else bits)"
    by blast
  then have f: "detectManchesterBits_bits spuriousTrace 48000 = [1]"
    by simp
  from a b c d e f show ?thesis
    by (simp only: pendingTrace_intervals spuriousTrace_intervals simp_thms)
qed

section \<open>The digitizer\<close>

lemma validOffset_nat:
  "validOffset buffer (of_nat p) n \<longleftrightarrow> p + n \<le> length buffer"
proof -
  have "(of_nat p + of_nat n \<le> (of_nat (length buffer) :: rat)) = (p + n \<le> length buffer)"
    by (metis of_nat_add of_nat_le_iff)
  then show ?thesis by (simp add: validOffset_def)
qed

lemma readInt8_nat:
  "p + 1 \<le> length buffer \<Longrightarrow>
   readInt8 buffer (of_nat p) = Inr (SNum (of_int (sint (buffer ! p))))"
  by (simp add: readInt8_def validOffset_nat)

lemma readInt16LE_nat:
  "p + 2 \<le> length buffer \<Longrightarrow>
   readInt16LE buffer (of_nat p)
     = Inr (SNum (of_int (sint ((ucast (buffer ! p) OR push_bit 8 (ucast (buffer ! (p + 1)))) :: 16 word))))"
  by (simp add: readInt16LE_def validOffset_nat)

lemma readFloatLE_nat:
  "p + 4 \<le> length buffer \<Longrightarrow>
   readFloatLE buffer (of_nat p)
     = Inr (float32 (ucast (buffer ! p) OR push_bit 8 (ucast (buffer ! (p + 1)))
                     OR push_bit 16 (ucast (buffer ! (p + 2)))
                     OR push_bit 24 (ucast (buffer ! (p + 3)))))"
  by (simp add: readFloatLE_def validOffset_nat)

lemma read_sample:
  assumes k: "bitsPerSample = 8 * k" "0 < k"
    and inr: "dataOffset + (i + 1) * k \<le> length buffer"
  shows "(if bitsPerSample = 32 then readFloatLE buffer (of_nat dataOffset + of_nat i * (of_nat bitsPerSample / 8))
          else if bitsPerSample = 16 then readInt16LE buffer (of_nat dataOffset + of_nat i * (of_nat bitsPerSample / 8))
          else readInt8 buffer (of_nat dataOffset + of_nat i * (of_nat bitsPerSample / 8)))
         = Inr (sampleAt buffer dataOffset bitsPerSample i)"
proof -
  have off: "of_nat dataOffset + of_nat i * (of_nat bitsPerSample / 8) = (of_nat (dataOffset + i * k) :: rat)"
    using k by simp
  have d: "bitsPerSample div 8 = k" using k by simp
  have le: "dataOffset + i * k + k \<le> length buffer" using inr by (simp add: algebra_simps)
  show ?thesis
  proof (cases "bitsPerSample = 32")
    case True
    with k have "k = 4" by simp
    with le have "dataOffset + i * k + 4 \<le> length buffer" by simp
    from readFloatLE_nat [OF this] True show ?thesis
      unfolding off sampleAt_def d Let_def by simp
  next
    case False
    show ?thesis
    proof (cases "bitsPerSample = 16")
      case True
      with k have "k = 2" by simp
      with le have "dataOffset + i * k + 2 \<le> length buffer" by simp
      from readInt16LE_nat [OF this] True False show ?thesis
        unfolding off sampleAt_def d Let_def by simp
    next
      case b: False
      from le k have "dataOffset + i * k + 1 \<le> length buffer" by simp
      from readInt8_nat [OF this] False b show ?thesis
        unfolding off sampleAt_def d Let_def by simp
    qed
  qed
qed

lemma audioLoop_map:
  assumes k: "bitsPerSample = 8 * k" "0 < k"
    and inr: "dataOffset + n * k \<le> length buffer"
  shows "i \<le> n \<Longrightarrow>
    audioLoop buffer dataOffset bitsPerSample (int n) i digital
      = Inr (digital @ map (\<lambda>j. gt_threshold (sampleAt buffer dataOffset bitsPerSample j)) [i..<n])"
proof (induction "n - i" arbitrary: i digital)
  case 0
  then have "i = n" by simp
  then show ?case by (subst audioLoop.simps) simp
next
  case (Suc m)
  then have lt: "i < n" by simp
  then have "(i + 1) * k \<le> n * k"
    by (intro mult_le_mono1) simp
  with inr have r: "dataOffset + (i + 1) * k \<le> length buffer" by simp
  have ih: "audioLoop buffer dataOffset bitsPerSample (int n) (i + 1)
              (digital @ [gt_threshold (sampleAt buffer dataOffset bitsPerSample i)])
      = Inr ((digital @ [gt_threshold (sampleAt buffer dataOffset bitsPerSample i)])
             @ map (\<lambda>j. gt_threshold (sampleAt buffer dataOffset bitsPerSample j)) [i + 1..<n])"
    using Suc.hyps(1) [of "i + 1"] Suc.hyps(2) lt by simp
  have lti: "int i < int n" using lt by simp
  have "audioLoop buffer dataOffset bitsPerSample (int n) i digital
      = audioLoop buffer dataOffset bitsPerSample (int n) (i + 1)
              (digital @ [gt_threshold (sampleAt buffer dataOffset bitsPerSample i)])"
    by (subst audioLoop.simps) (simp only: Let_def read_sample [OF k r] lti if_True sum.case)
  with ih show ?case using lt by (simp add: upt_conv_Cons)
qed

lemma numSamples_supported:
  assumes k: "bitsPerSample = 8 * k" "0 < k" and le: "dataOffset \<le> length buffer"
  shows "numSamples (length buffer) dataOffset bitsPerSample maxSamples
       = int (min ((length buffer - dataOffset) div k) maxSamples)"
proof -
  have "(of_nat (length buffer) - of_nat dataOffset) / (of_nat bitsPerSample / 8 :: rat)
      = of_nat (length buffer - dataOffset) / of_nat k"
    using k le by (simp add: of_nat_diff)
  moreover have "\<lfloor>(of_nat (length buffer - dataOffset) / of_nat k :: rat)\<rfloor>
      = int ((length buffer - dataOffset) div k)"
    by (simp add: floor_divide_of_nat_eq)
  ultimately have "\<lfloor>(of_nat (length buffer) - of_nat dataOffset) / (of_nat bitsPerSample / 8 :: rat)\<rfloor>
      = int ((length buffer - dataOffset) div k)"
    by (simp only:)
  moreover have "bitsPerSample \<noteq> 0" using k by simp
  ultimately show ?thesis
    unfolding numSamples_def by (simp only: if_False)
qed

lemma audioToDigital_map:
  assumes "0 < bitsPerSample" and "8 dvd bitsPerSample" and "dataOffset \<le> length buffer"
  shows "audioToDigital buffer dataOffset sampleRate bitsPerSample maxSamples
    = Inr (map (\<lambda>i. gt_threshold (sampleAt buffer dataOffset bitsPerSample i))
             [0..<min ((length buffer - dataOffset) div (bitsPerSample div 8)) maxSamples])"
proof -
  from assms(2) obtain k where k: "bitsPerSample = 8 * k" by (auto simp: dvd_def)
  with assms(1) have pos: "0 < k" by simp
  let ?n = "min ((length buffer - dataOffset) div k) maxSamples"
  have "?n * k \<le> (length buffer - dataOffset) div k * k"
    by (simp add: mult_le_mono1)
  also have "\<dots> \<le> length buffer - dataOffset" by simp
  finally have inr: "dataOffset + ?n * k \<le> length buffer" using assms(3) by simp
  have d: "bitsPerSample div 8 = k" using k by simp
  show ?thesis
    unfolding audioToDigital_def numSamples_supported [OF k pos assms(3)] d
    using audioLoop_map [OF k pos inr, of 0 "[]"] by simp
qed

text \<open>
  Claim C6, amended. For every bit depth that is a positive multiple of 8,
  \<^verbatim>\<open>audioToDigital\<close> returns a polarity trace whose length is the minimum of the available
  samples and the cap, and whose entry \<open>i\<close> is true exactly when the number decoded for sample
  \<open>i\<close> is greater than zero; a depth other than 32 and 16 is read as signed 8-bit, and no
  depth is refused.
\<close>

theorem audioToDigital_polarity:
  assumes "0 < bitsPerSample" and "8 dvd bitsPerSample" and "dataOffset \<le> length buffer"
  shows "\<exists>digital.
    audioToDigital buffer dataOffset sampleRate bitsPerSample maxSamples = Inr digital \<and>
    length digital = min ((length buffer - dataOffset) div (bitsPerSample div 8)) maxSamples \<and>
    (\<forall>i < length digital.
       digital ! i = gt_threshold (sampleAt buffer dataOffset bitsPerSample i))"
  unfolding audioToDigital_map [OF assms] by simp

theorem audioToDigital_polarity_witness:
  "\<exists>digital. audioToDigital exampleBuffer 0 48000 16 480000 = Inr digital \<and>
     length digital = 4 \<and> digital ! 0 = True \<and> digital ! 1 = False"
proof -
  have h: "0 < (16::nat)" "8 dvd (16::nat)" "0 \<le> length exampleBuffer"
    by simp_all
  from audioToDigital_polarity [OF h, of 48000 480000]
  obtain digital where d: "audioToDigital exampleBuffer 0 48000 16 480000 = Inr digital"
    "length digital = min ((length exampleBuffer - 0) div (16 div 8)) 480000"
    "\<forall>i < length digital. digital ! i = gt_threshold (sampleAt exampleBuffer 0 16 i)"
    by blast
  from d(2) have l: "length digital = 4" by (simp add: exampleBuffer_def)
  with d(3) have "digital ! 0 = gt_threshold (sampleAt exampleBuffer 0 16 0)"
    "digital ! 1 = gt_threshold (sampleAt exampleBuffer 0 16 1)"
    by simp_all
  then have "digital ! 0 = True" "digital ! 1 = False"
    by (simp_all add: sampleAt_def gt_threshold_def exampleBuffer_def)
  with d(1) l show ?thesis by blast
qed

text \<open>
  Claim C6 as stated fails: at 24 bits per sample, not one of the supported encodings, a trace
  is returned and no error.
\<close>

theorem audioToDigital_counterexample:
  "audioToDigital [1, 0, 0, 0xFF, 0, 0] 0 48000 24 480000 = Inr [True, False]"
proof -
  have "audioToDigital [1, 0, 0, 0xFF, 0, 0] 0 48000 24 480000
      = Inr (map (\<lambda>i. gt_threshold (sampleAt [1, 0, 0, 0xFF, 0, 0] 0 24 i)) [0..<min (6 div 3) 480000])"
    using audioToDigital_map [of 24 0 "[1, 0, 0, 0xFF, 0, 0]" 48000 480000] by simp
  also have "[0..<min (6 div 3) 480000] = [0, 1 :: nat]"
    by (simp add: upt_rec)
  finally show ?thesis
    by (simp add: sampleAt_def gt_threshold_def)
qed

section \<open>Decimal strings\<close>

lemma dec_digit: "n < 10 \<Longrightarrow> dec n = [digit_char n]"
  by (subst dec.simps) simp

lemma length_dec_pos: "0 < length (dec n)"
  by (subst dec.simps) simp

lemma length_dec_ge10: "10 \<le> n \<Longrightarrow> 2 \<le> length (dec n)"
  using length_dec_pos [of "n div 10"] by (subst dec.simps) (simp add: Suc_le_eq)

lemma length_dec_1: "length (dec n) = 1 \<longleftrightarrow> n < 10"
proof (cases "n < 10")
  case True
  then show ?thesis by (simp add: dec_digit)
next
  case False
  then have "2 \<le> length (dec n)" by (intro length_dec_ge10) simp
  with False show ?thesis by simp
qed

lemma lt10_cases: "v < 10 \<Longrightarrow> v \<in> {0, 1, 2, 3, 4, 5, 6, 7, 8, 9::nat}"
proof -
  assume "v < 10"
  then have "v \<in> set [0..<10]" by simp
  also have "[0..<10] = [0, 1, 2, 3, 4, 5, 6, 7, 8, 9::nat]"
    by code_simp
  finally show ?thesis by simp
qed

lemma digit_char_props:
  assumes "n < 10"
  shows "\<not> is_ws (digit_char n)" "digit_char n \<noteq> CHR ''-''" "digit_char n \<noteq> CHR ''+''"
    "digit_char n \<noteq> CHR ''x''" "digit_char n \<noteq> CHR ''X''" "digitOf (digit_char n) = n"
    "isDigit (digit_char n)"
  using lt10_cases [OF assms]
  by (auto simp: digit_char_def is_ws_def digitOf_def isDigit_def)

lemma parseInt_two_digits:
  assumes "a < 10" "b < 10"
  shows "parseInt [digit_char a, digit_char b] = Some (int (10 * a + b))"
  using assms by (simp add: parseInt_def Let_def digit_char_props)

lemma parseInt_century:
  assumes "a < 10" "b < 10"
  shows "parseInt (''20'' @ [digit_char a, digit_char b]) = Some (int (2000 + 10 * a + b))"
proof -
  have c: "\<not> is_ws CHR ''2''" "digitOf CHR ''2'' = 2" "digitOf CHR ''0'' = 0"
    by (simp_all add: is_ws_def digitOf_def)
  show ?thesis
    using assms by (simp add: parseInt_def Let_def digit_char_props c)
qed

section \<open>The user bits as a date string\<close>

lemma userBitsString_digits:
  assumes "digit_groups fr"
  shows "userBitsString fr =
    [digit_char (binaryGroup8 fr), digit_char (binaryGroup7 fr), digit_char (binaryGroup6 fr),
     digit_char (binaryGroup5 fr), digit_char (binaryGroup4 fr), digit_char (binaryGroup3 fr),
     digit_char (binaryGroup2 fr), digit_char (binaryGroup1 fr)]"
  using assms by (simp add: userBitsString_def dec_digit digit_groups_def)

lemma userBitsString_length:
  "length (userBitsString fr) =
     length (dec (binaryGroup8 fr)) + length (dec (binaryGroup7 fr))
     + length (dec (binaryGroup6 fr)) + length (dec (binaryGroup5 fr))
     + length (dec (binaryGroup4 fr)) + length (dec (binaryGroup3 fr))
     + length (dec (binaryGroup2 fr)) + length (dec (binaryGroup1 fr))"
  by (simp add: userBitsString_def)

lemma userBitsString_long:
  assumes "\<not> digit_groups fr"
  shows "8 < length (userBitsString fr)"
proof -
  from assms have "2 \<le> length (dec (binaryGroup1 fr)) \<or> 2 \<le> length (dec (binaryGroup2 fr))
      \<or> 2 \<le> length (dec (binaryGroup3 fr)) \<or> 2 \<le> length (dec (binaryGroup4 fr))
      \<or> 2 \<le> length (dec (binaryGroup5 fr)) \<or> 2 \<le> length (dec (binaryGroup6 fr))
      \<or> 2 \<le> length (dec (binaryGroup7 fr)) \<or> 2 \<le> length (dec (binaryGroup8 fr))"
    by (auto simp: digit_groups_def not_less intro: length_dec_ge10)
  then show ?thesis
    unfolding userBitsString_length
    using length_dec_pos [of "binaryGroup8 fr"] length_dec_pos [of "binaryGroup7 fr"]
      length_dec_pos [of "binaryGroup6 fr"] length_dec_pos [of "binaryGroup5 fr"]
      length_dec_pos [of "binaryGroup4 fr"] length_dec_pos [of "binaryGroup3 fr"]
      length_dec_pos [of "binaryGroup2 fr"] length_dec_pos [of "binaryGroup1 fr"]
    by linarith
qed

lemma userBitsString_fields:
  assumes "digit_groups fr"
  shows "parseInt (slice (userBitsString fr) 0 2) = Some (int (10 * binaryGroup8 fr + binaryGroup7 fr))"
    "parseInt (slice (userBitsString fr) 2 4) = Some (int (10 * binaryGroup6 fr + binaryGroup5 fr))"
    "parseInt (slice (userBitsString fr) 4 6) = Some (int (10 * binaryGroup4 fr + binaryGroup3 fr))"
    "slice (userBitsString fr) 6 8 = [digit_char (binaryGroup2 fr), digit_char (binaryGroup1 fr)]"
  using assms unfolding userBitsString_digits [OF assms]
  by (simp_all add: slice_def parseInt_two_digits digit_groups_def)

text \<open>
  Claim C9, amended. The concatenation of the decimal renderings of the user-bit groups 8 down
  to 1 has exactly 8 characters exactly when every group is at most 9; it then consists of the
  eight digits, read as year, month, day and a two-digit extra field. When a group exceeds 9 the
  string is longer than 8 and no date is shown.
\<close>

theorem userBitsString_date_string:
  "(length (userBitsString fr) = 8 \<longleftrightarrow> digit_groups fr) \<and>
   (digit_groups fr \<longrightarrow>
      userBitsString fr =
        [digit_char (binaryGroup8 fr), digit_char (binaryGroup7 fr), digit_char (binaryGroup6 fr),
         digit_char (binaryGroup5 fr), digit_char (binaryGroup4 fr), digit_char (binaryGroup3 fr),
         digit_char (binaryGroup2 fr), digit_char (binaryGroup1 fr)] \<and>
      parseInt (slice (userBitsString fr) 0 2) = Some (int (10 * binaryGroup8 fr + binaryGroup7 fr)) \<and>
      parseInt (slice (userBitsString fr) 2 4) = Some (int (10 * binaryGroup6 fr + binaryGroup5 fr)) \<and>
      parseInt (slice (userBitsString fr) 4 6) = Some (int (10 * binaryGroup4 fr + binaryGroup3 fr)) \<and>
      slice (userBitsString fr) 6 8 = [digit_char (binaryGroup2 fr), digit_char (binaryGroup1 fr)]) \<and>
   (\<not> digit_groups fr \<longrightarrow> 8 < length (userBitsString fr) \<and> displayedDate fr = None)"
proof -
  have a: "length (userBitsString fr) = 8 \<longleftrightarrow> digit_groups fr"
    using userBitsString_long [of fr] userBitsString_digits [of fr] by (cases "digit_groups fr") auto
  have c: "\<not> digit_groups fr \<longrightarrow> 8 < length (userBitsString fr) \<and> displayedDate fr = None"
    using userBitsString_long [of fr] by (auto simp: displayedDate_def Let_def)
  from a c userBitsString_digits [of fr] userBitsString_fields [of fr] show ?thesis by blast
qed

theorem userBitsString_date_string_witness:
  "userBitsString exampleFrame = ''25091500'' \<and>
   parseInt (slice (userBitsString exampleFrame) 2 4) = Some 9 \<and>
   8 < length (userBitsString longGroupFrame) \<and> displayedDate longGroupFrame = None"
proof -
  have d: "digit_groups exampleFrame"
    by (simp add: digit_groups_def exampleFrame_def)
  have n: "\<not> digit_groups longGroupFrame"
    by (simp add: digit_groups_def longGroupFrame_def exampleFrame_def)
  from userBitsString_date_string [of exampleFrame] d
  have "userBitsString exampleFrame =
        [digit_char (binaryGroup8 exampleFrame), digit_char (binaryGroup7 exampleFrame),
         digit_char (binaryGroup6 exampleFrame), digit_char (binaryGroup5 exampleFrame),
         digit_char (binaryGroup4 exampleFrame), digit_char (binaryGroup3 exampleFrame),
         digit_char (binaryGroup2 exampleFrame), digit_char (binaryGroup1 exampleFrame)]"
    and "parseInt (slice (userBitsString exampleFrame) 2 4)
         = Some (int (10 * binaryGroup6 exampleFrame + binaryGroup5 exampleFrame))"
    by blast+
  then have a: "userBitsString exampleFrame = ''25091500''"
    "parseInt (slice (userBitsString exampleFrame) 2 4) = Some 9"
    by (simp_all add: exampleFrame_def digit_char_def)
  from userBitsString_date_string [of longGroupFrame] n
  have "8 < length (userBitsString longGroupFrame) \<and> displayedDate longGroupFrame = None"
    by blast
  with a show ?thesis by simp
qed

text \<open>
  Claim C9 as stated fails: a decoded frame with user-bit group 1 at 10 gives a string of 9
  characters.
\<close>

theorem userBitsString_counterexample:
  "parseLTCFrame (encodeLTCFrame longGroupFrame) = Some longGroupFrame \<and>
   userBitsString longGroupFrame = ''250915010'' \<and>
   length (userBitsString longGroupFrame) \<noteq> 8"
proof -
  have "bcd_fields longGroupFrame"
    by (simp add: bcd_fields_def longGroupFrame_def exampleFrame_def)
  then have "parseLTCFrame (encodeLTCFrame longGroupFrame) = Some longGroupFrame"
    by (rule parse_roundtrip)
  moreover have "userBitsString longGroupFrame = ''250915010''"
    by code_simp
  ultimately show ?thesis by simp
qed

section \<open>The validator of sync-ltc-timecode.ts\<close>

lemma parse_line_Some:
  assumes "parseLTCFrame_line now line = (Some fr, ws)"
  obtains g1 g2 g3 g4 where
    "matchTimecode (timecode fr) = Some (g1, g2, g3, g4)"
    "length (userBits fr) = 8"
    "year fr = (if invalidDate (userBits fr) then Some (getFullYear now)
                else parseInt (''20'' @ slice (userBits fr) 0 2))"
    "month fr = (if invalidDate (userBits fr) then Some (getMonth now + 1)
                 else parseInt (slice (userBits fr) 2 4))"
    "day fr = (if invalidDate (userBits fr) then Some (getDate now)
               else parseInt (slice (userBits fr) 4 6))"
    "tcHour fr = (if 24 \<le> groupNumber g1 then groupNumber g1 mod 24 else groupNumber g1)"
    "tcMinute fr = groupNumber g2" "tcSecond fr = groupNumber g3" "tcFrame fr = groupNumber g4"
    "tcDropFrame fr = (CHR ''.'' \<in> set (timecode fr))"
    "ws = (if invalidDate (userBits fr) then [InvalidDate (userBits fr)] else [])
          @ (if 24 \<le> groupNumber g1 then [InvalidHour (groupNumber g1) (groupNumber g1 mod 24)] else [])
          @ (if 60 \<le> groupNumber g2 then [InvalidMinute (groupNumber g2) (groupNumber g2 mod 60)] else [])
          @ (if 60 \<le> groupNumber g3 then [InvalidSecond (groupNumber g3) (groupNumber g3 mod 60)] else [])"
proof -
  define parts where "parts = split_on CHR ''|'' (trim line)"
  define leftParts where "leftParts = split_ws (trim (parts ! 0))"
  define ub where "ub = leftParts ! 0"
  define tc where "tc = join '' '' (drop 1 leftParts)"
  note defs = parts_def leftParts_def ub_def tc_def
  have c1: "length parts = 2"
  proof (rule ccontr)
    assume "length parts \<noteq> 2"
    then have "parseLTCFrame_line now line = (None, [])"
      by (simp add: parseLTCFrame_line_def Let_def defs)
    with assms show False by simp
  qed
  have c2: "length ub = 8"
  proof (rule ccontr)
    assume "length ub \<noteq> 8"
    then have "parseLTCFrame_line now line = (None, [])"
      using c1 by (simp add: parseLTCFrame_line_def Let_def defs)
    with assms show False by simp
  qed
  have c3: "matchTimecode tc \<noteq> None"
  proof
    assume "matchTimecode tc = None"
    then have "fst (parseLTCFrame_line now line) = None"
      using c1 c2 by (simp add: parseLTCFrame_line_def Let_def defs)
    with assms show False by simp
  qed
  then obtain g1 g2 g3 g4 where m: "matchTimecode tc = Some (g1, g2, g3, g4)"
    by (cases "matchTimecode tc") auto
  have r: "parseLTCFrame_line now line =
    (Some \<lparr>userBits = ub, timecode = tc,
            position = (let p = split_ws (trim (parts ! 1)) ! 0 in if p = [] then ''0'' else p),
            year = (if invalidDate ub then Some (getFullYear now) else parseInt (''20'' @ slice ub 0 2)),
            month = (if invalidDate ub then Some (getMonth now + 1) else parseInt (slice ub 2 4)),
            day = (if invalidDate ub then Some (getDate now) else parseInt (slice ub 4 6)),
            tcHour = (if 24 \<le> groupNumber g1 then groupNumber g1 mod 24 else groupNumber g1),
            tcMinute = groupNumber g2, tcSecond = groupNumber g3, tcFrame = groupNumber g4,
            tcDropFrame = (CHR ''.'' \<in> set tc)\<rparr>,
     (if invalidDate ub then [InvalidDate ub] else [])
     @ (if 24 \<le> groupNumber g1 then [InvalidHour (groupNumber g1) (groupNumber g1 mod 24)] else [])
     @ (if 60 \<le> groupNumber g2 then [InvalidMinute (groupNumber g2) (groupNumber g2 mod 60)] else [])
     @ (if 60 \<le> groupNumber g3 then [InvalidSecond (groupNumber g3) (groupNumber g3 mod 60)] else []))"
    using c1 c2 m
    unfolding parseLTCFrame_line_def Let_def defs [symmetric] invalidDate_def
    by (simp only: defs [symmetric] not_not refl if_False if_True option.case prod.case simp_thms)
  from r assms have fr: "fr = \<lparr>userBits = ub, timecode = tc,
            position = (let p = split_ws (trim (parts ! 1)) ! 0 in if p = [] then ''0'' else p),
            year = (if invalidDate ub then Some (getFullYear now) else parseInt (''20'' @ slice ub 0 2)),
            month = (if invalidDate ub then Some (getMonth now + 1) else parseInt (slice ub 2 4)),
            day = (if invalidDate ub then Some (getDate now) else parseInt (slice ub 4 6)),
            tcHour = (if 24 \<le> groupNumber g1 then groupNumber g1 mod 24 else groupNumber g1),
            tcMinute = groupNumber g2, tcSecond = groupNumber g3, tcFrame = groupNumber g4,
            tcDropFrame = (CHR ''.'' \<in> set tc)\<rparr>"
    and ws: "ws = (if invalidDate ub then [InvalidDate ub] else [])
     @ (if 24 \<le> groupNumber g1 then [InvalidHour (groupNumber g1) (groupNumber g1 mod 24)] else [])
     @ (if 60 \<le> groupNumber g2 then [InvalidMinute (groupNumber g2) (groupNumber g2 mod 60)] else [])
     @ (if 60 \<le> groupNumber g3 then [InvalidSecond (groupNumber g3) (groupNumber g3 mod 60)] else [])"
    by simp_all
  have u: "userBits fr = ub" "timecode fr = tc" by (simp_all add: fr)
  show thesis
  proof (rule that [of g1 g2 g3 g4])
    show "matchTimecode (timecode fr) = Some (g1, g2, g3, g4)" using m by (simp add: u)
    show "length (userBits fr) = 8" using c2 by (simp add: u)
    show "ws = (if invalidDate (userBits fr) then [InvalidDate (userBits fr)] else [])
          @ (if 24 \<le> groupNumber g1 then [InvalidHour (groupNumber g1) (groupNumber g1 mod 24)] else [])
          @ (if 60 \<le> groupNumber g2 then [InvalidMinute (groupNumber g2) (groupNumber g2 mod 60)] else [])
          @ (if 60 \<le> groupNumber g3 then [InvalidSecond (groupNumber g3) (groupNumber g3 mod 60)] else [])"
      unfolding u by (rule ws)
  qed (simp_all add: fr)
qed

lemma digit_chars:
  "char_of (48::nat) = digit_char 0" "char_of (49::nat) = digit_char 1"
  "char_of (50::nat) = digit_char 2" "char_of (51::nat) = digit_char 3"
  "char_of (52::nat) = digit_char 4" "char_of (53::nat) = digit_char 5"
  "char_of (54::nat) = digit_char 6" "char_of (55::nat) = digit_char 7"
  "char_of (56::nat) = digit_char 8" "char_of (57::nat) = digit_char 9"
  by (code_simp, code_simp, code_simp, code_simp, code_simp,
      code_simp, code_simp, code_simp, code_simp, code_simp)

lemma isDigit_digit_char:
  assumes "isDigit c"
  obtains n where "n < 10" "c = digit_char n"
proof -
  define m where "m = (of_char c :: nat)"
  from assms have "48 \<le> m" "m \<le> 57" by (simp_all add: isDigit_def m_def)
  then have "m - 48 < 10" "m = 48 + (m - 48)" by simp_all
  then obtain n where n: "n < 10" "m = 48 + n" by blast
  have c: "c = char_of m" by (simp add: m_def)
  from lt10_cases [OF n(1)] have "char_of (48 + n) = digit_char n"
    by (elim insertE emptyE) (simp_all add: digit_chars)
  with c n show thesis by (intro that [of n]) simp_all
qed

lemma groupNumber_digits:
  assumes "isDigit a" "isDigit b"
  shows "0 \<le> groupNumber [a, b]" "groupNumber [a, b] < 100" "parseInt [a, b] = Some (groupNumber [a, b])"
proof -
  from assms obtain m n where d: "m < 10" "a = digit_char m" "n < 10" "b = digit_char n"
    by (elim isDigit_digit_char) blast
  then have p: "parseInt [a, b] = Some (int (10 * m + n))"
    by (simp add: parseInt_two_digits)
  then show "0 \<le> groupNumber [a, b]" "groupNumber [a, b] < 100"
    "parseInt [a, b] = Some (groupNumber [a, b])"
    using d by (simp_all add: groupNumber_def)
qed

lemma matchTimecode_groups:
  "matchTimecode s = Some (g1, g2, g3, g4) \<Longrightarrow>
     (\<forall>g \<in> {g1, g2, g3, g4}. 0 \<le> groupNumber g \<and> groupNumber g < 100
        \<and> parseInt g = Some (groupNumber g))"
proof (induction s rule: matchTimecode.induct)
  case 1
  then show ?case by simp
next
  case (2 c cs)
  let ?s = "c # cs"
  show ?case
  proof (cases "11 \<le> length ?s
           \<and> isDigit (?s ! 0) \<and> isDigit (?s ! 1) \<and> ?s ! 2 = CHR '':''
           \<and> isDigit (?s ! 3) \<and> isDigit (?s ! 4) \<and> ?s ! 5 = CHR '':''
           \<and> isDigit (?s ! 6) \<and> isDigit (?s ! 7) \<and> (?s ! 8 = CHR ''.'' \<or> ?s ! 8 = CHR '':'')
           \<and> isDigit (?s ! 9) \<and> isDigit (?s ! 10)")
    case True
    with "2.prems" have g: "g1 = [?s ! 0, ?s ! 1]" "g2 = [?s ! 3, ?s ! 4]"
      "g3 = [?s ! 6, ?s ! 7]" "g4 = [?s ! 9, ?s ! 10]"
      by (simp_all add: Let_def)
    from True have d: "isDigit (?s ! 0)" "isDigit (?s ! 1)" "isDigit (?s ! 3)" "isDigit (?s ! 4)"
      "isDigit (?s ! 6)" "isDigit (?s ! 7)" "isDigit (?s ! 9)" "isDigit (?s ! 10)"
      by blast+
    show ?thesis
      unfolding g
      using groupNumber_digits [OF d(1,2)] groupNumber_digits [OF d(3,4)]
        groupNumber_digits [OF d(5,6)] groupNumber_digits [OF d(7,8)]
      by blast
  next
    case False
    with "2.prems" have "matchTimecode cs = Some (g1, g2, g3, g4)"
      by (simp only: matchTimecode.simps Let_def if_False)
    with False "2.IH" show ?thesis by (simp only: Let_def) blast
  qed
qed

lemma validator_numeric:
  assumes "parseLTCFrame_line now line = (Some fr, ws)"
  obtains h m s f where
    "0 \<le> h" "h < 100" "0 \<le> m" "m < 100" "0 \<le> s" "s < 100" "0 \<le> f" "f < 100"
    "tcHour fr = (if 24 \<le> h then h mod 24 else h)"
    "InvalidHour h (h mod 24) \<in> set ws \<longleftrightarrow> 24 \<le> h"
    "tcMinute fr = m" "InvalidMinute m (m mod 60) \<in> set ws \<longleftrightarrow> 60 \<le> m"
    "tcSecond fr = s" "InvalidSecond s (s mod 60) \<in> set ws \<longleftrightarrow> 60 \<le> s"
    "tcFrame fr = f"
    "InvalidDate (userBits fr) \<in> set ws \<longleftrightarrow> invalidDate (userBits fr)"
    "invalidDate (userBits fr) \<Longrightarrow>
       year fr = Some (getFullYear now) \<and> month fr = Some (getMonth now + 1)
       \<and> day fr = Some (getDate now)"
    "\<not> invalidDate (userBits fr) \<Longrightarrow>
       year fr = parseInt (''20'' @ slice (userBits fr) 0 2)
       \<and> month fr = parseInt (slice (userBits fr) 2 4)
       \<and> day fr = parseInt (slice (userBits fr) 4 6)"
proof -
  from assms obtain g1 g2 g3 g4 where
    m: "matchTimecode (timecode fr) = Some (g1, g2, g3, g4)"
    and y: "year fr = (if invalidDate (userBits fr) then Some (getFullYear now)
                else parseInt (''20'' @ slice (userBits fr) 0 2))"
    "month fr = (if invalidDate (userBits fr) then Some (getMonth now + 1)
                 else parseInt (slice (userBits fr) 2 4))"
    "day fr = (if invalidDate (userBits fr) then Some (getDate now)
               else parseInt (slice (userBits fr) 4 6))"
    and t: "tcHour fr = (if 24 \<le> groupNumber g1 then groupNumber g1 mod 24 else groupNumber g1)"
    "tcMinute fr = groupNumber g2" "tcSecond fr = groupNumber g3" "tcFrame fr = groupNumber g4"
    and ws: "ws = (if invalidDate (userBits fr) then [InvalidDate (userBits fr)] else [])
          @ (if 24 \<le> groupNumber g1 then [InvalidHour (groupNumber g1) (groupNumber g1 mod 24)] else [])
          @ (if 60 \<le> groupNumber g2 then [InvalidMinute (groupNumber g2) (groupNumber g2 mod 60)] else [])
          @ (if 60 \<le> groupNumber g3 then [InvalidSecond (groupNumber g3) (groupNumber g3 mod 60)] else [])"
    by (rule parse_line_Some)
  from matchTimecode_groups [OF m]
  have r: "0 \<le> groupNumber g1" "groupNumber g1 < 100" "0 \<le> groupNumber g2" "groupNumber g2 < 100"
    "0 \<le> groupNumber g3" "groupNumber g3 < 100" "0 \<le> groupNumber g4" "groupNumber g4 < 100"
    by simp_all
  show thesis
    by (rule that [of "groupNumber g1" "groupNumber g2" "groupNumber g3" "groupNumber g4"])
       (simp_all add: r t y ws)
qed

text \<open>
  Claim C7. The month of the user bits \<^verbatim>\<open>25c11500\<close> is \<^verbatim>\<open>parseInt("c1")\<close>, which is
  \<^verbatim>\<open>NaN\<close>: every comparison of the date test is false, the date of the frame is kept with its
  month \<^verbatim>\<open>NaN\<close>, and no correction is reported.
\<close>

theorem validator_nan_month:
  "parseLTCFrame_line exampleNow nanMonthLine =
     (Some \<lparr>userBits = ''25c11500'', timecode = ''01:02:03:04'', position = ''2660708'',
             year = Some 2025, month = None, day = Some 15,
             tcHour = 1, tcMinute = 2, tcSecond = 3, tcFrame = 4, tcDropFrame = False\<rparr>, [])"
  by code_simp

lemma displayedDate_digits:
  assumes d: "digit_groups fr"
    and m: "1 \<le> 10 * binaryGroup6 fr + binaryGroup5 fr" "10 * binaryGroup6 fr + binaryGroup5 fr \<le> 12"
    and dd: "1 \<le> 10 * binaryGroup4 fr + binaryGroup3 fr" "10 * binaryGroup4 fr + binaryGroup3 fr \<le> 31"
  shows "displayedDate fr =
    Some (int (10 * binaryGroup6 fr + binaryGroup5 fr), int (10 * binaryGroup4 fr + binaryGroup3 fr),
          Some (if 10 * binaryGroup8 fr + binaryGroup7 fr < 50
                then 2000 + int (10 * binaryGroup8 fr + binaryGroup7 fr)
                else 1900 + int (10 * binaryGroup8 fr + binaryGroup7 fr)))"
proof -
  have l: "length (userBitsString fr) = 8"
    by (simp add: userBitsString_digits [OF d])
  show ?thesis
    unfolding displayedDate_def Let_def userBitsString_fields [OF d] l
    using m dd by (simp add: js_ge_def js_le_def)
qed

text \<open>
  Claim C8, amended. In the text-form path (\<^verbatim>\<open>parseLTCFrame\<close> of sync-ltc-timecode.ts on
  a line of \<^verbatim>\<open>ltcdump\<close>) a date that is not replaced has the year 2000 plus the two year
  digits of the user bits, whatever they are. In the audio-decoded path
  (\<^verbatim>\<open>displayLTCFrame\<close> of read-timecode.ts on a decoded frame) the year shown is 2000 plus
  the two digits when they are below 50 and 1900 plus the two digits otherwise.
\<close>

theorem year_expansion_paths:
  "(parseLTCFrame_line now line = (Some fr, ws) \<and> userBits fr = digit_char a # digit_char b # rest
      \<and> a < 10 \<and> b < 10 \<and> InvalidDate (userBits fr) \<notin> set ws
    \<longrightarrow> year fr = Some (2000 + int (10 * a + b))) \<and>
   (digit_groups fr'
      \<and> 1 \<le> 10 * binaryGroup6 fr' + binaryGroup5 fr' \<and> 10 * binaryGroup6 fr' + binaryGroup5 fr' \<le> 12
      \<and> 1 \<le> 10 * binaryGroup4 fr' + binaryGroup3 fr' \<and> 10 * binaryGroup4 fr' + binaryGroup3 fr' \<le> 31
    \<longrightarrow> displayedDate fr' =
          Some (int (10 * binaryGroup6 fr' + binaryGroup5 fr'),
                int (10 * binaryGroup4 fr' + binaryGroup3 fr'),
                Some (if 10 * binaryGroup8 fr' + binaryGroup7 fr' < 50
                      then 2000 + int (10 * binaryGroup8 fr' + binaryGroup7 fr')
                      else 1900 + int (10 * binaryGroup8 fr' + binaryGroup7 fr'))))"
proof (intro conjI impI)
  assume a: "parseLTCFrame_line now line = (Some fr, ws) \<and> userBits fr = digit_char a # digit_char b # rest
      \<and> a < 10 \<and> b < 10 \<and> InvalidDate (userBits fr) \<notin> set ws"
  then have p: "parseLTCFrame_line now line = (Some fr, ws)" by blast
  have i: "InvalidDate (userBits fr) \<in> set ws \<longleftrightarrow> invalidDate (userBits fr)"
    by (rule validator_numeric [OF p]) blast
  have y: "\<not> invalidDate (userBits fr) \<Longrightarrow>
       year fr = parseInt (''20'' @ slice (userBits fr) 0 2)
       \<and> month fr = parseInt (slice (userBits fr) 2 4)
       \<and> day fr = parseInt (slice (userBits fr) 4 6)"
    by (rule validator_numeric [OF p]) blast
  from a i have "\<not> invalidDate (userBits fr)" by blast
  from y [OF this] have "year fr = parseInt (''20'' @ slice (userBits fr) 0 2)" by blast
  also from a have "slice (userBits fr) 0 2 = [digit_char a, digit_char b]"
    by (simp add: slice_def)
  also from a have "parseInt (''20'' @ [digit_char a, digit_char b]) = Some (int (2000 + 10 * a + b))"
    by (intro parseInt_century) blast+
  finally show "year fr = Some (2000 + int (10 * a + b))" by simp
next
  assume "digit_groups fr'
      \<and> 1 \<le> 10 * binaryGroup6 fr' + binaryGroup5 fr' \<and> 10 * binaryGroup6 fr' + binaryGroup5 fr' \<le> 12
      \<and> 1 \<le> 10 * binaryGroup4 fr' + binaryGroup3 fr' \<and> 10 * binaryGroup4 fr' + binaryGroup3 fr' \<le> 31"
  then show "displayedDate fr' =
          Some (int (10 * binaryGroup6 fr' + binaryGroup5 fr'),
                int (10 * binaryGroup4 fr' + binaryGroup3 fr'),
                Some (if 10 * binaryGroup8 fr' + binaryGroup7 fr' < 50
                      then 2000 + int (10 * binaryGroup8 fr' + binaryGroup7 fr')
                      else 1900 + int (10 * binaryGroup8 fr' + binaryGroup7 fr')))"
    using displayedDate_digits [of fr'] by blast
qed

theorem year_expansion_paths_witness:
  "parseLTCFrame_line exampleNow exampleLine =
     (Some \<lparr>userBits = ''25091500'', timecode = ''06:04:00.16'', position = ''2660708'',
             year = Some 2025, month = Some 9, day = Some 15,
             tcHour = 6, tcMinute = 4, tcSecond = 0, tcFrame = 16, tcDropFrame = True\<rparr>, []) \<and>
   displayedDate exampleFrame = Some (9, 15, Some 2025)"
proof -
  let ?fr = "\<lparr>userBits = ''25091500'', timecode = ''06:04:00.16'', position = ''2660708'',
             year = Some 2025, month = Some 9, day = Some 15,
             tcHour = 6, tcMinute = 4, tcSecond = 0, tcFrame = 16, tcDropFrame = True\<rparr>"
  have p: "parseLTCFrame_line exampleNow exampleLine = (Some ?fr, [])"
    by code_simp
  have u: "userBits ?fr = digit_char 2 # digit_char 5 # ''091500''"
    by (simp add: digit_char_def)
  have g: "digit_groups exampleFrame"
    "1 \<le> 10 * binaryGroup6 exampleFrame + binaryGroup5 exampleFrame"
    "10 * binaryGroup6 exampleFrame + binaryGroup5 exampleFrame \<le> 12"
    "1 \<le> 10 * binaryGroup4 exampleFrame + binaryGroup3 exampleFrame"
    "10 * binaryGroup4 exampleFrame + binaryGroup3 exampleFrame \<le> 31"
    by (simp_all add: digit_groups_def exampleFrame_def)
  note t = year_expansion_paths [of exampleNow exampleLine ?fr "[]" 2 5 "''091500''" exampleFrame]
  from t p u have "year ?fr = Some (2000 + int (10 * 2 + 5))" by simp
  moreover from t g have "displayedDate exampleFrame =
          Some (int (10 * binaryGroup6 exampleFrame + binaryGroup5 exampleFrame),
                int (10 * binaryGroup4 exampleFrame + binaryGroup3 exampleFrame),
                Some (if 10 * binaryGroup8 exampleFrame + binaryGroup7 exampleFrame < 50
                      then 2000 + int (10 * binaryGroup8 exampleFrame + binaryGroup7 exampleFrame)
                      else 1900 + int (10 * binaryGroup8 exampleFrame + binaryGroup7 exampleFrame)))"
    by blast
  then have "displayedDate exampleFrame = Some (9, 15, Some 2025)"
    by (simp add: exampleFrame_def)
  ultimately show ?thesis using p by simp
qed

text \<open>
  Claim C8 as stated fails: the frame decoded from audio with the year digits 75 is shown with
  the year 1975, and the line with the same user bits is parsed to the year 2075.
\<close>

theorem year_expansion_counterexample:
  "parseLTCFrame (encodeLTCFrame year75Frame) = Some year75Frame \<and>
   userBitsString year75Frame = ''75091500'' \<and>
   displayedDate year75Frame = Some (9, 15, Some 1975) \<and>
   displayLTCFrame_date year75Frame = Some ''Date: September 15, 1975'' \<and>
   parseLTCFrame_line exampleNow year75Line =
     (Some \<lparr>userBits = ''75091500'', timecode = ''01:02:03:04'', position = ''2660708'',
             year = Some 2075, month = Some 9, day = Some 15,
             tcHour = 1, tcMinute = 2, tcSecond = 3, tcFrame = 4, tcDropFrame = False\<rparr>, [])"
proof -
  have "bcd_fields year75Frame"
    by (simp add: bcd_fields_def year75Frame_def exampleFrame_def)
  then have "parseLTCFrame (encodeLTCFrame year75Frame) = Some year75Frame"
    by (rule parse_roundtrip)
  moreover have "userBitsString year75Frame = ''75091500''" by code_simp
  moreover have "displayedDate year75Frame = Some (9, 15, Some 1975)" by code_simp
  moreover have "displayLTCFrame_date year75Frame = Some ''Date: September 15, 1975''" by code_simp
  moreover have "parseLTCFrame_line exampleNow year75Line =
     (Some \<lparr>userBits = ''75091500'', timecode = ''01:02:03:04'', position = ''2660708'',
             year = Some 2075, month = Some 9, day = Some 15,
             tcHour = 1, tcMinute = 2, tcSecond = 3, tcFrame = 4, tcDropFrame = False\<rparr>, [])"
    by code_simp
  ultimately show ?thesis by blast
qed

section \<open>Rounding to a double\<close>

lemma ilog2_bounds:
  assumes "0 < a"
  shows "2 powi (ilog2 a) \<le> a" and "a < 2 powi (ilog2 a + 1)"
proof -
  obtain p q where pq: "quotient_of a = (p, q)" by (cases "quotient_of a")
  then have q: "0 < q" by (rule quotient_of_denom_pos)
  have a: "a = of_int p / of_int q" using pq by (rule quotient_of_div)
  with assms q have p: "0 < p" by (simp add: zero_less_divide_iff)
  define bp where "bp = bitlen p"
  define bq where "bq = bitlen q"
  from bitlen_bounds [OF p] have bp: "2 ^ nat (bp - 1) \<le> p" "p < 2 ^ nat bp"
    by (simp_all add: bp_def)
  from bitlen_bounds [OF q] have bq: "2 ^ nat (bq - 1) \<le> q" "q < 2 ^ nat bq"
    by (simp_all add: bq_def)
  have bp1: "1 \<le> bp" using p by (simp add: bp_def bitlen_alt_def)
  have bq1: "1 \<le> bq" using q by (simp add: bq_def bitlen_alt_def)
  have P: "(2::rat) powi (bp - 1) \<le> of_int p" "of_int p < (2::rat) powi bp"
  proof -
    have "(2::rat) powi (bp - 1) = of_int (2 ^ nat (bp - 1))"
      using bp1 by (simp add: power_int_def)
    also have "\<dots> \<le> of_int p" using bp(1) by (simp only: of_int_le_iff)
    finally show "(2::rat) powi (bp - 1) \<le> of_int p" .
    have "(of_int p :: rat) < of_int (2 ^ nat bp)" using bp(2) by (simp only: of_int_less_iff)
    also have "\<dots> = 2 powi bp" using bp1 by (simp add: power_int_def)
    finally show "of_int p < (2::rat) powi bp" .
  qed
  have Q: "(2::rat) powi (bq - 1) \<le> of_int q" "of_int q < (2::rat) powi bq"
  proof -
    have "(2::rat) powi (bq - 1) = of_int (2 ^ nat (bq - 1))"
      using bq1 by (simp add: power_int_def)
    also have "\<dots> \<le> of_int q" using bq(1) by (simp only: of_int_le_iff)
    finally show "(2::rat) powi (bq - 1) \<le> of_int q" .
    have "(of_int q :: rat) < of_int (2 ^ nat bq)" using bq(2) by (simp only: of_int_less_iff)
    also have "\<dots> = 2 powi bq" using bq1 by (simp add: power_int_def)
    finally show "of_int q < (2::rat) powi bq" .
  qed
  have qpos: "(0::rat) < of_int q" using q by simp
  have ppos: "(0::rat) < of_int p" using p by simp
  have up: "a < 2 powi (bp - bq + 1)"
  proof -
    have "a < 2 powi bp / of_int q"
      unfolding a using P(2) qpos by (simp add: divide_strict_right_mono)
    also have "\<dots> \<le> 2 powi bp / 2 powi (bq - 1)"
      using Q(1) qpos by (intro divide_left_mono mult_pos_pos) simp_all
    also have "\<dots> = 2 powi (bp - (bq - 1))"
      by (simp add: power_int_diff)
    finally show ?thesis by (simp add: algebra_simps)
  qed
  have lo: "2 powi (bp - bq - 1) < a"
  proof -
    have "(2::rat) powi (bp - bq - 1) = 2 powi ((bp - 1) - bq)" by (simp add: algebra_simps)
    also have "\<dots> = 2 powi (bp - 1) / 2 powi bq" by (simp add: power_int_diff)
    also have "\<dots> < 2 powi (bp - 1) / of_int q"
      using Q(2) qpos by (intro divide_strict_left_mono) simp_all
    also have "\<dots> \<le> a"
      unfolding a using P(1) qpos by (simp add: divide_right_mono)
    finally show ?thesis .
  qed
  have il: "ilog2 a = (if 2 powi (bp - bq) \<le> a then bp - bq else bp - bq - 1)"
    by (simp add: ilog2_def pq bp_def bq_def Let_def)
  show "2 powi (ilog2 a) \<le> a"
    using lo by (simp add: il less_imp_le)
  show "a < 2 powi (ilog2 a + 1)"
    using up by (simp add: il not_le)
qed

lemma ilog2_less:
  assumes "0 < a" "a < 2 powi n"
  shows "ilog2 a < n"
proof (rule ccontr)
  assume "\<not> ilog2 a < n"
  then have "n \<le> ilog2 a" by simp
  then have "(2::rat) powi n \<le> 2 powi (ilog2 a)"
    by (intro power_int_increasing) simp_all
  also have "\<dots> \<le> a" using assms(1) by (rule ilog2_bounds)
  finally show False using assms(2) by simp
qed

lemma round_half_even_error: "\<bar>of_int (round_half_even m) - m\<bar> \<le> 1 / 2"
proof -
  have "of_int \<lfloor>m\<rfloor> \<le> m" "m < of_int \<lfloor>m\<rfloor> + 1" by linarith+
  then show ?thesis
    by (auto simp: round_half_even_def Let_def) 
qed

lemma round_half_even_int: "round_half_even (of_int n) = n"
  by (simp add: round_half_even_def)

lemma fl_zero: "fl 0 = 0"
  by (simp add: fl_def)

lemma fl_pos_unfold:
  assumes "0 < x"
  shows "fl x = of_int (round_half_even (x / 2 powi (ilog2 x - 52))) * 2 powi (ilog2 x - 52)"
  using assms by (simp add: fl_def Let_def)

lemma fl_error_abs:
  assumes "0 < x"
  shows "\<bar>fl x - x\<bar> \<le> x / 2 ^ 53"
proof -
  define u :: rat where "u = 2 powi (ilog2 x - 52)"
  have upos: "0 < u" by (simp add: u_def)
  have f: "fl x = of_int (round_half_even (x / u)) * u"
    using assms by (simp add: fl_pos_unfold u_def)
  have "fl x - x = (of_int (round_half_even (x / u)) - x / u) * u"
    using upos by (simp add: f algebra_simps)
  then have "\<bar>fl x - x\<bar> = \<bar>of_int (round_half_even (x / u)) - x / u\<bar> * u"
    using upos by (simp add: abs_mult)
  also have "\<dots> \<le> (1 / 2) * u"
    using upos round_half_even_error [of "x / u"] by (intro mult_right_mono) simp_all
  also have "\<dots> = 2 powi (ilog2 x) / 2 ^ 53"
    by (simp add: u_def power_int_diff)
  also have "\<dots> \<le> x / 2 ^ 53"
    using ilog2_bounds(1) [OF assms] by (intro divide_right_mono) simp_all
  finally show ?thesis .
qed

lemma fl_bounds:
  assumes "0 \<le> x"
  shows "x * (1 - 1 / 2 ^ 53) \<le> fl x" and "fl x \<le> x * (1 + 1 / 2 ^ 53)"
proof -
  have "x * (1 - 1 / 2 ^ 53) \<le> fl x \<and> fl x \<le> x * (1 + 1 / 2 ^ 53)"
  proof (cases "x = 0")
    case True
    then show ?thesis by (simp add: fl_zero)
  next
    case False
    with assms have "0 < x" by simp
    from fl_error_abs [OF this] have "fl x - x \<le> x / 2 ^ 53" "x - fl x \<le> x / 2 ^ 53"
      by linarith+
    then show ?thesis by (simp add: algebra_simps)
  qed
  then show "x * (1 - 1 / 2 ^ 53) \<le> fl x" and "fl x \<le> x * (1 + 1 / 2 ^ 53)"
    by blast+
qed

lemma fl_of_int_pos:
  assumes "0 < n" "n < 2 ^ 53"
  shows "fl (of_int n) = of_int n"
proof -
  let ?x = "of_int n :: rat"
  have xpos: "0 < ?x" using assms by simp
  have "?x < 2 powi 53" using assms(2)
    by (metis of_int_less_iff of_int_numeral of_int_power power_int_numeral)
  from ilog2_less [OF xpos this] have e: "ilog2 ?x \<le> 52" by simp
  define k where "k = nat (52 - ilog2 ?x)"
  have u: "(2::rat) powi (ilog2 ?x - 52) = 1 / 2 ^ k"
  proof -
    have "ilog2 ?x - 52 = - int k" using e by (simp add: k_def)
    then show ?thesis by (simp add: power_int_minus divide_inverse)
  qed
  have "?x / (1 / 2 ^ k) = of_int (n * 2 ^ k)" by simp
  then have "round_half_even (?x / (1 / 2 ^ k)) = n * 2 ^ k"
    by (simp only: round_half_even_int)
  then show ?thesis
    unfolding fl_pos_unfold [OF xpos] u by simp
qed

lemma fl_of_int:
  assumes "0 \<le> n" "n < 2 ^ 53"
  shows "fl (of_int n) = of_int n"
  using assms fl_of_int_pos [of n] by (cases "n = 0") (simp_all add: fl_zero)

section \<open>The time reference\<close>

lemma fl_exact:
  assumes "x = of_int n" "0 \<le> n" "n < 2 ^ 53"
  shows "fl x = x"
  using fl_of_int [OF assms(2,3)] assms(1) by simp

lemma total_seconds:
  assumes "validTimecode fr"
  shows "dadd (dadd (dmul (of_int (tcHour fr)) 3600) (dmul (of_int (tcMinute fr)) 60))
              (of_int (tcSecond fr))
         = of_int (tcHour fr * 3600 + tcMinute fr * 60 + tcSecond fr)"
proof -
  from assms have r: "0 \<le> tcHour fr" "tcHour fr < 24" "0 \<le> tcMinute fr" "tcMinute fr < 100"
    "0 \<le> tcSecond fr" "tcSecond fr < 100"
    by (simp_all add: validTimecode_def)
  have 1: "dmul (of_int (tcHour fr)) 3600 = of_int (tcHour fr * 3600)"
    unfolding dmul_def using r by (subst fl_exact [of _ "tcHour fr * 3600"]) simp_all
  have 2: "dmul (of_int (tcMinute fr)) 60 = of_int (tcMinute fr * 60)"
    unfolding dmul_def using r by (subst fl_exact [of _ "tcMinute fr * 60"]) simp_all
  have 3: "dadd (of_int (tcHour fr * 3600)) (of_int (tcMinute fr * 60))
      = of_int (tcHour fr * 3600 + tcMinute fr * 60)"
    unfolding dadd_def using r
    by (subst fl_exact [of _ "tcHour fr * 3600 + tcMinute fr * 60"]) simp_all
  have 4: "dadd (of_int (tcHour fr * 3600 + tcMinute fr * 60)) (of_int (tcSecond fr))
      = of_int (tcHour fr * 3600 + tcMinute fr * 60 + tcSecond fr)"
    unfolding dadd_def using r
    by (subst fl_exact [of _ "tcHour fr * 3600 + tcMinute fr * 60 + tcSecond fr"]) simp_all
  show ?thesis by (simp only: 1 2 3 4)
qed

lemma time_reference_non_drop:
  assumes "validTimecode fr" "\<not> tcDropFrame fr"
  shows "calculateTimeReference fr = timeReference_exact fr"
proof -
  define T where "T = tcHour fr * 3600 + tcMinute fr * 60 + tcSecond fr"
  define f where "f = tcFrame fr"
  from assms(1) have T: "0 \<le> T" "T \<le> 88839" and f: "0 \<le> f" "f < 100"
    by (simp_all add: validTimecode_def T_def f_def)
  have 1: "dmul (of_int T) 30 = of_int (T * 30)"
    unfolding dmul_def using T by (subst fl_exact [of _ "T * 30"]) simp_all
  have 2: "dadd (of_int (T * 30)) (of_int f) = of_int (T * 30 + f)"
    unfolding dadd_def using T f by (subst fl_exact [of _ "T * 30 + f"]) simp_all
  have 3: "dmul (of_int (T * 30 + f)) 48000 = of_int ((T * 30 + f) * 48000)"
    unfolding dmul_def using T f by (subst fl_exact [of _ "(T * 30 + f) * 48000"]) simp_all
  have 4: "ddiv (of_int ((T * 30 + f) * 48000)) 30 = of_int ((T * 30 + f) * 1600)"
    unfolding ddiv_def using T f by (subst fl_exact [of _ "(T * 30 + f) * 1600"]) simp_all
  have c: "calculateTimeReference fr = Math_round (of_int ((T * 30 + f) * 1600))"
    unfolding calculateTimeReference_def Let_def total_seconds [OF assms(1)]
    using assms(2) by (simp only: if_False T_def [symmetric] f_def [symmetric] 1 2 3 4)
  have "(of_int T * 30 + of_int f) * 48000 / 30 = (of_int ((T * 30 + f) * 1600) :: rat)"
    by (simp add: algebra_simps)
  then have e: "timeReference_exact fr = round (of_int ((T * 30 + f) * 1600) :: rat)"
    unfolding timeReference_exact_def Let_def
    using assms(2) by (simp only: if_False T_def [symmetric] f_def [symmetric])
  show ?thesis
    unfolding c e by (simp add: Math_round_def round_def)
qed

lemma fl_nonneg:
  assumes "0 \<le> x"
  shows "0 \<le> fl x"
proof -
  have "0 \<le> x * (1 - 1 / 2 ^ 53)"
    using assms by (intro mult_nonneg_nonneg) simp_all
  also have "\<dots> \<le> fl x" using assms by (rule fl_bounds)
  finally show ?thesis .
qed

lemma frameRate_double: "fl (2997 / 100) = 1054475631502295 / 35184372088832"
  by code_simp

lemma time_reference_drop:
  assumes "validTimecode fr" "tcDropFrame fr"
  shows "calculateTimeReference fr = timeReference_exact fr"
proof -
  define T where "T = tcHour fr * 3600 + tcMinute fr * 60 + tcSecond fr"
  define f where "f = tcFrame fr"
  define r :: rat where "r = 1054475631502295 / 35184372088832"
  define t :: rat where "t = of_int T"
  define g :: rat where "g = of_int f"
  define a where "a = dmul t r"
  define b where "b = dadd a g"
  define c where "c = dmul b 48000"
  define d where "d = ddiv c r"
  from assms(1) have Ti: "0 \<le> T" "T \<le> 88839" and fi: "0 \<le> f" "f \<le> 99"
    by (simp_all add: validTimecode_def T_def f_def)
  then have tg: "0 \<le> t" "t \<le> 88839" "0 \<le> g" "g \<le> 99"
    by (simp_all add: t_def g_def)
  have rpos: "0 < r" by (simp add: r_def)
  have a: "t * r * (1 - 1 / 2 ^ 53) \<le> a" "a \<le> t * r * (1 + 1 / 2 ^ 53)"
    unfolding a_def dmul_def using tg rpos by (intro fl_bounds; simp)+
  have a0: "0 \<le> a"
    unfolding a_def dmul_def using tg rpos by (intro fl_nonneg) simp
  have b: "(a + g) * (1 - 1 / 2 ^ 53) \<le> b" "b \<le> (a + g) * (1 + 1 / 2 ^ 53)"
    unfolding b_def dadd_def using a0 tg by (intro fl_bounds; simp)+
  have b0: "0 \<le> b"
    unfolding b_def dadd_def using a0 tg by (intro fl_nonneg) simp
  have c: "b * 48000 * (1 - 1 / 2 ^ 53) \<le> c" "c \<le> b * 48000 * (1 + 1 / 2 ^ 53)"
    unfolding c_def dmul_def using b0 by (intro fl_bounds; simp)+
  have c0: "0 \<le> c"
    unfolding c_def dmul_def using b0 by (intro fl_nonneg) simp
  have d: "c / r * (1 - 1 / 2 ^ 53) \<le> d" "d \<le> c / r * (1 + 1 / 2 ^ 53)"
    unfolding d_def ddiv_def using c0 rpos by (intro fl_bounds; simp)+
  define E :: rat where "E = (t * (2997 / 100) + g) * 48000 / (2997 / 100)"
  define M where "M = 2 * (T * 143856000 + f * 4800000) + 2997"
  define N where "N = M div 5994"
  have EM: "E + 1 / 2 = of_int M / 5994"
    by (simp add: E_def M_def t_def g_def field_simps)
  have "M mod 5994 mod 2 = M mod 2"
    by (intro mod_mod_cancel) simp
  also have "M mod 2 = 1" unfolding M_def by presburger
  finally have "M mod 5994 \<noteq> 0" by auto
  moreover have "0 \<le> M mod 5994" "M mod 5994 < 5994" by simp_all
  ultimately have md: "1 \<le> M mod 5994" "M mod 5994 \<le> 5993" by linarith+
  have "M = N * 5994 + M mod 5994" by (simp add: N_def)
  then have "(of_int M :: rat) = of_int N * 5994 + of_int (M mod 5994)"
    by (metis of_int_add of_int_mult of_int_numeral)
  moreover have "(1::rat) \<le> of_int (M mod 5994)" "(of_int (M mod 5994) :: rat) \<le> 5993"
    using md by simp_all
  ultimately have EN: "of_int N + 1 / 5994 \<le> E + 1 / 2" "E + 1 / 2 \<le> of_int N + 5993 / 5994"
    unfolding EM by (simp_all add: field_simps)
  have lo: "E - 1 / 11988 \<le> d"
    using a(1) b(1) c(1) d(1) tg unfolding E_def r_def by (simp add: field_simps)
  have hi: "d \<le> E + 1 / 11988"
    using a(2) b(2) c(2) d(2) tg unfolding E_def r_def by (simp add: field_simps)
  have "\<lfloor>d + 1 / 2\<rfloor> = N"
    using lo hi EN by (intro floor_unique) linarith+
  moreover have "\<lfloor>E + 1 / 2\<rfloor> = N"
    using EN by (intro floor_unique) linarith+
  moreover have "calculateTimeReference fr = \<lfloor>d + 1 / 2\<rfloor>"
    unfolding calculateTimeReference_def Let_def total_seconds [OF assms(1)] Math_round_def
    using assms(2)
    by (simp only: if_True frameRate_double T_def [symmetric] f_def [symmetric]
          t_def [symmetric] g_def [symmetric] r_def [symmetric] a_def [symmetric]
          b_def [symmetric] c_def [symmetric] d_def [symmetric])
  moreover have "timeReference_exact fr = \<lfloor>E + 1 / 2\<rfloor>"
    unfolding timeReference_exact_def Let_def round_def
    using assms(2)
    by (simp only: if_True T_def [symmetric] f_def [symmetric] t_def [symmetric]
          g_def [symmetric] E_def [symmetric])
  ultimately show ?thesis by simp
qed

lemma parsed_frame_valid:
  assumes "parseLTCFrame_line now line = (Some fr, ws)"
  shows "validTimecode fr"
proof -
  from assms obtain h m s f where
    "0 \<le> h" "h < 100" "0 \<le> m" "m < 100" "0 \<le> s" "s < 100" "0 \<le> f" "f < 100"
    "tcHour fr = (if 24 \<le> h then h mod 24 else h)"
    "tcMinute fr = m" "tcSecond fr = s" "tcFrame fr = f"
    by (rule validator_numeric) blast
  then show ?thesis by (simp add: validTimecode_def)
qed

lemma time_reference_exact_value: "timeReference_exact dropFrameMinute = 2880000"
  by code_simp

text \<open>
  Claim C1. For every validated frame the sample count that \<^verbatim>\<open>calculateTimeReference\<close>
  computes in double arithmetic is the sample count of the formula in exact arithmetic:
  the total of frames is \<open>(hour * 3600 + minute * 60 + second) * frameRate + frame\<close> with the
  frame rate 29.97 for drop-frame and 30 otherwise, and the result is that total times 48000
  over the frame rate, rounded to the nearest integer. For the drop-frame timecode 00:01:00:00
  it is 2880000.
\<close>

theorem calculateTimeReference_formula:
  "(validTimecode fr \<longrightarrow> calculateTimeReference fr = timeReference_exact fr) \<and>
   (parseLTCFrame_line now line = (Some fr', ws) \<longrightarrow>
      calculateTimeReference fr' = timeReference_exact fr') \<and>
   calculateTimeReference dropFrameMinute = 2880000"
proof -
  have v: "calculateTimeReference x = timeReference_exact x" if "validTimecode x" for x
    using that time_reference_drop [of x] time_reference_non_drop [of x] by blast
  have "validTimecode dropFrameMinute"
    by (simp add: validTimecode_def dropFrameMinute_def)
  then have "calculateTimeReference dropFrameMinute = 2880000"
    using v time_reference_exact_value by simp
  then show ?thesis using v parsed_frame_valid by blast
qed

theorem calculateTimeReference_formula_witness:
  "calculateTimeReference dropFrameMinute = timeReference_exact dropFrameMinute \<and>
   timeReference_exact dropFrameMinute = 2880000 \<and>
   calculateTimeReference
     \<lparr>userBits = ''25091500'', timecode = ''06:04:00.16'', position = ''2660708'',
      year = Some 2025, month = Some 9, day = Some 15,
      tcHour = 6, tcMinute = 4, tcSecond = 0, tcFrame = 16, tcDropFrame = True\<rparr>
     = 1048345626"
proof -
  let ?fr = "\<lparr>userBits = ''25091500'', timecode = ''06:04:00.16'', position = ''2660708'',
      year = Some 2025, month = Some 9, day = Some 15,
      tcHour = 6, tcMinute = 4, tcSecond = 0, tcFrame = 16, tcDropFrame = True\<rparr>"
  have v: "validTimecode dropFrameMinute"
    by (simp add: validTimecode_def dropFrameMinute_def)
  have p: "parseLTCFrame_line exampleNow exampleLine = (Some ?fr, [])"
    by code_simp
  have e: "timeReference_exact ?fr = 1048345626"
    by code_simp
  from calculateTimeReference_formula [of dropFrameMinute exampleNow exampleLine ?fr "[]"] v p
  have "calculateTimeReference dropFrameMinute = timeReference_exact dropFrameMinute"
    "calculateTimeReference ?fr = timeReference_exact ?fr"
    by blast+
  with e time_reference_exact_value show ?thesis by simp
qed

end
